theory Spec2Isabelle
  imports Complex_Main "HOL-Library.Multiset"
begin

section \<open>FitCRM: a shallow embedding of \<open>app.js\<close>\<close>

text \<open>
  The module keeps a collection of client records as one JSON text in
  \<open>localStorage\<close>, validates the client form, and asks a remote catalog for
  suggested exercises.  JavaScript strings are modelled as \<open>string\<close> (lists of
  8-bit code units), the values that travel through \<open>JSON.stringify\<close> and
  \<open>JSON.parse\<close> as the datatype \<open>json\<close>, thrown exceptions as the left
  summand of a result, and the ambient sources \<open>Date.now()\<close>,
  \<open>new Date().toISOString()\<close> and \<open>Math.random()\<close> as explicit arguments.
\<close>

subsection \<open>Values and exceptions\<close>

datatype json =
    JNull
  | JBool bool
  | JNum int
  | JStr string
  | JArr "json list"
  | JObj "(string \<times> json) list"

text \<open>
  \<open>SyntaxError\<close> and \<open>TypeError\<close> are the two exceptions the modelled code can
  raise.  The other two are not JavaScript exceptions.  \<open>Unmodelled\<close> marks an
  input that leaves the fragment of JSON covered here (a number with a fraction
  or an exponent, an escape above U+00FF), about which the model says nothing.
  \<open>OutOfFuel\<close> is what the parser below returns when its recursion bound is
  used up; \<open>JSON_parse\<close> never returns it (lemma \<open>JSON_parse_fuel\<close>).
\<close>

datatype js_error = SyntaxError | TypeError | Unmodelled | OutOfFuel

subsection \<open>Characters and decimal numerals\<close>

definition is_digit :: "char \<Rightarrow> bool" where
  "is_digit c = (c \<in> set ''0123456789'')"

definition is_base36 :: "char \<Rightarrow> bool" where
  "is_base36 c = (c \<in> set ''0123456789abcdefghijklmnopqrstuvwxyz'')"

definition digit_char :: "nat \<Rightarrow> char" where
  "digit_char d = ''0123456789'' ! d"

text \<open>Number-to-string conversion of a non-negative integer, as \<open>'' + n\<close> does.\<close>

fun show_nat :: "nat \<Rightarrow> string" where
  "show_nat n = (if n < 10 then [digit_char n] else show_nat (n div 10) @ [digit_char (n mod 10)])"

declare show_nat.simps [simp del]

subsection \<open>Identifier generator\<close>

text \<open>
  \<open>String.prototype.substr(start, length)\<close> for non-negative arguments: at most
  \<open>length\<close> code units from position \<open>start\<close>, fewer when the string ends.
\<close>

definition substr :: "string \<Rightarrow> nat \<Rightarrow> nat \<Rightarrow> string" where
  "substr s start len = take len (drop start s)"

text \<open>
  \<open>Math.random().toString(36)\<close> is an input of the model.  For a number in
  \<open>[0, 1)\<close> the radix-36 numeral is \<open>0\<close> for zero and otherwise \<open>0.\<close> followed by
  at least one digit of \<open>0-9a-z\<close>; how many digits depends on the number
  (\<open>(0.5).toString(36)\<close> is \<open>0.i\<close>).
\<close>

definition is_random36 :: "string \<Rightarrow> bool" where
  "is_random36 r = (r = ''0'' \<or> (take 2 r = ''0.'' \<and> drop 2 r \<noteq> [] \<and> list_all is_base36 (drop 2 r)))"

text \<open>
  \<^verbatim>\<open>return 'client_' + Date.now() + '_' + Math.random().toString(36).substr(2, 9);\<close>
  with \<open>now\<close> the value of \<open>Date.now()\<close> and \<open>r36\<close> that of
  \<open>Math.random().toString(36)\<close>.
\<close>

definition generateId :: "nat \<Rightarrow> string \<Rightarrow> string" where
  "generateId now r36 = ''client_'' @ show_nat now @ ''_'' @ substr r36 2 9"

text \<open>
  The form the specification gives for an identifier, read off a string: three
  parts separated by underscores, the prefix, a decimal timestamp, and a suffix
  of exactly nine base-36 characters.
\<close>

fun split_on :: "char \<Rightarrow> string \<Rightarrow> string list" where
  "split_on d [] = [[]]"
| "split_on d (c # cs) =
     (if c = d then [] # split_on d cs
      else (case split_on d cs of [] \<Rightarrow> [[c]] | p # ps \<Rightarrow> (c # p) # ps))"

definition spec_id_form :: "string \<Rightarrow> bool" where
  "spec_id_form s =
     (case split_on CHR ''_'' s of
        [p, t, sfx] \<Rightarrow> p = ''client'' \<and> t \<noteq> [] \<and> list_all is_digit t
                        \<and> length sfx = 9 \<and> list_all is_base36 sfx
      | _ \<Rightarrow> False)"

subsection \<open>Objects\<close>

text \<open>
  An object is the list of its own properties in insertion order, each key
  once.  \<open>obj_set\<close> is the assignment \<open>o[k] = v\<close>: an existing property keeps
  its place and takes the new value, a new one goes to the end.  (JavaScript
  lists keys that are array indices before the others; the property names of
  the program's records are not of that kind.)
\<close>

fun obj_set :: "(string \<times> 'a) list \<Rightarrow> string \<Rightarrow> 'a \<Rightarrow> (string \<times> 'a) list" where
  "obj_set [] k v = [(k, v)]"
| "obj_set ((k', v') # fs) k v = (if k' = k then (k, v) # fs else (k', v') # obj_set fs k v)"

subsection \<open>Strings: \<open>trim\<close> and \<open>parseInt\<close>\<close>

text \<open>
  The white space and line terminators of ECMAScript that fit in one code unit
  below U+0100: tab, line feed, vertical tab, form feed, carriage return, space
  and no-break space.  \<open>trim\<close> removes them at both ends, and the class \<open>\s\<close> of
  a regular expression is the same set.
\<close>

definition is_js_space :: "char \<Rightarrow> bool" where
  "is_js_space c = (of_char c \<in> {9, 10, 11, 12, 13, 32, 160 :: nat})"

definition trim :: "string \<Rightarrow> string" where
  "trim s = rev (dropWhile is_js_space (rev (dropWhile is_js_space s)))"

definition hex_value :: "char \<Rightarrow> nat option" where
  "hex_value c =
     map_of [(CHR ''0'', 0), (CHR ''1'', 1), (CHR ''2'', 2), (CHR ''3'', 3), (CHR ''4'', 4),
             (CHR ''5'', 5), (CHR ''6'', 6), (CHR ''7'', 7), (CHR ''8'', 8), (CHR ''9'', 9),
             (CHR ''a'', 10), (CHR ''b'', 11), (CHR ''c'', 12), (CHR ''d'', 13), (CHR ''e'', 14),
             (CHR ''f'', 15), (CHR ''A'', 10), (CHR ''B'', 11), (CHR ''C'', 12), (CHR ''D'', 13),
             (CHR ''E'', 14), (CHR ''F'', 15)] c"

definition digits_value :: "nat \<Rightarrow> nat list \<Rightarrow> nat" where
  "digits_value radix ds = foldl (\<lambda>acc d. acc * radix + d) 0 ds"

definition radix_digit :: "nat \<Rightarrow> char \<Rightarrow> bool" where
  "radix_digit radix c = (case hex_value c of None \<Rightarrow> False | Some d \<Rightarrow> d < radix)"

definition parse_digits :: "nat \<Rightarrow> string \<Rightarrow> int option" where
  "parse_digits radix s =
     (let ds = takeWhile (radix_digit radix) s
      in if ds = [] then None
         else Some (int (digits_value radix (map (\<lambda>c. the (hex_value c)) ds))))"

text \<open>
  \<open>parseInt(string)\<close> without a radix: leading white space is skipped, a sign
  is read, a prefix \<open>0x\<close> or \<open>0X\<close> selects radix 16, and the longest run of
  digits is the value; \<open>None\<close> is \<open>NaN\<close>, the result when there is no digit.
\<close>

definition parseInt :: "string \<Rightarrow> int option" where
  "parseInt input =
     (let s = dropWhile is_js_space input;
          neg = (take 1 s = ''-'');
          s = (if take 1 s = ''-'' \<or> take 1 s = ''+'' then drop 1 s else s);
          hex = (take 2 s = ''0x'' \<or> take 2 s = ''0X'');
          r = (if hex then parse_digits 16 (drop 2 s) else parse_digits 10 s)
      in map_option (\<lambda>n. if neg then - n else n) r)"

subsection \<open>\<open>JSON.stringify\<close>\<close>

text \<open>
  The serialisation of a value without indentation.  In a string the quote and
  the backslash are escaped, the control characters below U+0020 are written
  with their short escapes or as \<open>\u00XX\<close>, and any other code unit stands for
  itself.  Integers are written in decimal.
\<close>

definition hex_digit :: "nat \<Rightarrow> char" where
  "hex_digit d = ''0123456789abcdef'' ! d"

definition escape_char :: "char \<Rightarrow> string" where
  "escape_char c =
     (if c = CHR 0x22 then [CHR 0x5C, CHR 0x22]
      else if c = CHR 0x5C then [CHR 0x5C, CHR 0x5C]
      else if c = CHR 0x08 then [CHR 0x5C, CHR ''b'']
      else if c = CHR 0x09 then [CHR 0x5C, CHR ''t'']
      else if c = CHR 0x0A then [CHR 0x5C, CHR ''n'']
      else if c = CHR 0x0C then [CHR 0x5C, CHR ''f'']
      else if c = CHR 0x0D then [CHR 0x5C, CHR ''r'']
      else if (of_char c :: nat) < 32
        then [CHR 0x5C, CHR ''u'', CHR ''0'', CHR ''0'',
              hex_digit (of_char c div 16), hex_digit (of_char c mod 16)]
      else [c])"

definition quote :: "string \<Rightarrow> string" where
  "quote s = CHR 0x22 # concat (map escape_char s) @ [CHR 0x22]"

definition show_int :: "int \<Rightarrow> string" where
  "show_int i = (if i < 0 then CHR ''-'' # show_nat (nat (- i)) else show_nat (nat i))"

fun JSON_stringify :: "json \<Rightarrow> string"
  and stringify_elements :: "json list \<Rightarrow> string"
  and stringify_members :: "(string \<times> json) list \<Rightarrow> string" where
  "JSON_stringify JNull = ''null''"
| "JSON_stringify (JBool b) = (if b then ''true'' else ''false'')"
| "JSON_stringify (JNum i) = show_int i"
| "JSON_stringify (JStr s) = quote s"
| "JSON_stringify (JArr xs) = ''['' @ stringify_elements xs @ '']''"
| "JSON_stringify (JObj fs) = ''{'' @ stringify_members fs @ ''}''"
| "stringify_elements [] = []"
| "stringify_elements [x] = JSON_stringify x"
| "stringify_elements (x # y # ys) = JSON_stringify x @ '','' @ stringify_elements (y # ys)"
| "stringify_members [] = []"
| "stringify_members [(k, v)] = quote k @ '':'' @ JSON_stringify v"
| "stringify_members ((k, v) # f # fs) =
     quote k @ '':'' @ JSON_stringify v @ '','' @ stringify_members (f # fs)"

subsection \<open>\<open>JSON.parse\<close>\<close>

text \<open>
  A recursive-descent parser of the JSON grammar: white space is space, tab,
  line feed and carriage return; a number must not have a leading zero; a raw
  control character in a string is an error; a repeated key keeps its first
  position and takes the last value.  A number with a fraction or an exponent,
  and an escape \<open>\uXXXX\<close> above U+00FF, are outside the model
  (\<open>Unmodelled\<close>).  The first argument of \<open>parse_value\<close> bounds the depth of
  the recursion; \<open>JSON_parse\<close> starts it above twice the length of the text, which
  is enough for every text.
\<close>

definition unescape :: "char \<Rightarrow> char option" where
  "unescape e =
     (if e = CHR 0x22 then Some (CHR 0x22)
      else if e = CHR 0x5C then Some (CHR 0x5C)
      else if e = CHR ''/'' then Some (CHR ''/'')
      else if e = CHR ''b'' then Some (CHR 0x08)
      else if e = CHR ''f'' then Some (CHR 0x0C)
      else if e = CHR ''n'' then Some (CHR 0x0A)
      else if e = CHR ''r'' then Some (CHR 0x0D)
      else if e = CHR ''t'' then Some (CHR 0x09)
      else None)"

definition hex4 :: "string \<Rightarrow> nat option" where
  "hex4 hs = (if length hs = 4 \<and> list_all (radix_digit 16) hs
              then Some (digits_value 16 (map (\<lambda>c. the (hex_value c)) hs)) else None)"

fun parse_string :: "string \<Rightarrow> js_error + (string \<times> string)" where
  "parse_string [] = Inl SyntaxError"
| "parse_string (c # cs) =
     (if c = CHR 0x22 then Inr ([], cs)
      else if c = CHR 0x5C then
        (case cs of
           [] \<Rightarrow> Inl SyntaxError
         | e # r \<Rightarrow>
             if e = CHR ''u'' then
               (case hex4 (take 4 r) of
                  None \<Rightarrow> Inl SyntaxError
                | Some n \<Rightarrow>
                    if n < 256 then
                      (case parse_string (drop 4 r) of
                         Inl err \<Rightarrow> Inl err
                       | Inr (s, rest) \<Rightarrow> Inr (char_of n # s, rest))
                    else Inl Unmodelled)
             else
               (case unescape e of
                  None \<Rightarrow> Inl SyntaxError
                | Some ch \<Rightarrow>
                    (case parse_string r of
                       Inl err \<Rightarrow> Inl err
                     | Inr (s, rest) \<Rightarrow> Inr (ch # s, rest))))
      else if (of_char c :: nat) < 32 then Inl SyntaxError
      else
        (case parse_string cs of
           Inl err \<Rightarrow> Inl err
         | Inr (s, rest) \<Rightarrow> Inr (c # s, rest)))"

definition parse_number :: "string \<Rightarrow> js_error + (json \<times> string)" where
  "parse_number s =
     (let neg = (take 1 s = ''-'');
          s = (if neg then drop 1 s else s);
          ds = (if take 1 s = ''0'' then ''0'' else takeWhile is_digit s);
          rest = drop (length ds) s
      in if ds = [] then Inl SyntaxError
         else if take 1 rest = ''.'' \<or> take 1 rest = ''e'' \<or> take 1 rest = ''E'' then Inl Unmodelled
         else
           (let n = int (digits_value 10 (map (\<lambda>c. the (hex_value c)) ds))
            in Inr (JNum (if neg then - n else n), rest)))"

definition is_json_ws :: "char \<Rightarrow> bool" where
  "is_json_ws c = (c = CHR 0x20 \<or> c = CHR 0x09 \<or> c = CHR 0x0A \<or> c = CHR 0x0D)"

definition skip_ws :: "string \<Rightarrow> string" where
  "skip_ws s = dropWhile is_json_ws s"

fun parse_value :: "nat \<Rightarrow> string \<Rightarrow> js_error + (json \<times> string)"
  and parse_elements :: "nat \<Rightarrow> string \<Rightarrow> json list \<Rightarrow> js_error + (json \<times> string)"
  and parse_members :: "nat \<Rightarrow> string \<Rightarrow> (string \<times> json) list \<Rightarrow> js_error + (json \<times> string)" where
  "parse_value 0 s = Inl OutOfFuel"
| "parse_value (Suc n) s =
     (case skip_ws s of
        [] \<Rightarrow> Inl SyntaxError
      | c # cs \<Rightarrow>
          if c = CHR ''{'' then
            (if take 1 (skip_ws cs) = ''}'' then Inr (JObj [], drop 1 (skip_ws cs))
             else parse_members n cs [])
          else if c = CHR ''['' then
            (if take 1 (skip_ws cs) = '']'' then Inr (JArr [], drop 1 (skip_ws cs))
             else parse_elements n cs [])
          else if c = CHR 0x22 then
            (case parse_string cs of
               Inl err \<Rightarrow> Inl err
             | Inr (str, rest) \<Rightarrow> Inr (JStr str, rest))
          else if c = CHR ''-'' \<or> is_digit c then parse_number (c # cs)
          else if take 4 (c # cs) = ''true'' then Inr (JBool True, drop 4 (c # cs))
          else if take 5 (c # cs) = ''false'' then Inr (JBool False, drop 5 (c # cs))
          else if take 4 (c # cs) = ''null'' then Inr (JNull, drop 4 (c # cs))
          else Inl SyntaxError)"
| "parse_elements 0 s acc = Inl OutOfFuel"
| "parse_elements (Suc n) s acc =
     (case parse_value n s of
        Inl err \<Rightarrow> Inl err
      | Inr (v, rest) \<Rightarrow>
          if take 1 (skip_ws rest) = '','' then parse_elements n (drop 1 (skip_ws rest)) (acc @ [v])
          else if take 1 (skip_ws rest) = '']'' then Inr (JArr (acc @ [v]), drop 1 (skip_ws rest))
          else Inl SyntaxError)"
| "parse_members 0 s acc = Inl OutOfFuel"
| "parse_members (Suc n) s acc =
     (if take 1 (skip_ws s) = [CHR 0x22] then
        (case parse_string (drop 1 (skip_ws s)) of
           Inl err \<Rightarrow> Inl err
         | Inr (k, rest) \<Rightarrow>
             if take 1 (skip_ws rest) = '':'' then
               (case parse_value n (drop 1 (skip_ws rest)) of
                  Inl err \<Rightarrow> Inl err
                | Inr (v, rest') \<Rightarrow>
                    if take 1 (skip_ws rest') = '','' then
                      parse_members n (drop 1 (skip_ws rest')) (obj_set acc k v)
                    else if take 1 (skip_ws rest') = ''}'' then
                      Inr (JObj (obj_set acc k v), drop 1 (skip_ws rest'))
                    else Inl SyntaxError)
             else Inl SyntaxError)
      else Inl SyntaxError)"

definition JSON_parse :: "string \<Rightarrow> js_error + json" where
  "JSON_parse text =
     (case parse_value (Suc (2 * length text)) text of
        Inl err \<Rightarrow> Inl err
      | Inr (v, rest) \<Rightarrow> if skip_ws rest = [] then Inr v else Inl SyntaxError)"

text \<open>
  A value is well formed when no object in it has two properties with the same
  key; every value of the program is, and so is every value the parser returns.
\<close>

fun wf_json :: "json \<Rightarrow> bool"
  and wf_elements :: "json list \<Rightarrow> bool"
  and wf_members :: "(string \<times> json) list \<Rightarrow> bool" where
  "wf_json (JArr xs) = wf_elements xs"
| "wf_json (JObj fs) = (distinct (map fst fs) \<and> wf_members fs)"
| "wf_json v = True"
| "wf_elements [] = True"
| "wf_elements (x # xs) = (wf_json x \<and> wf_elements xs)"
| "wf_members [] = True"
| "wf_members ((k, v) # fs) = (wf_json v \<and> wf_members fs)"

text \<open>
  What may follow a number without changing how it is read, and the characters
  a serialised value can start with.
\<close>

definition follow_ok :: "string \<Rightarrow> bool" where
  "follow_ok r = (case r of [] \<Rightarrow> True | c # cs \<Rightarrow> \<not> is_digit c \<and> c \<notin> set ''.eE'')"

definition value_start :: "char \<Rightarrow> bool" where
  "value_start c = (c \<in> set ''ntf-0123456789[{'' \<or> c = CHR 0x22)"

subsection \<open>Storage\<close>

text \<open>
  \<open>localStorage\<close> maps keys to strings; \<open>getItem\<close> of a missing key is \<open>null\<close>.
  \<^verbatim>\<open>const data = localStorage.getItem(STORAGE_KEY);\<close>
  \<^verbatim>\<open>return data ? JSON.parse(data) : [];\<close>
  The test \<open>data ?\<close> fails for \<open>null\<close> and for the empty string.  There is no
  \<open>try\<close> around \<open>JSON.parse\<close>, so what it throws leaves \<open>getClients\<close>.
\<close>

type_synonym storage = "string \<rightharpoonup> string"

definition STORAGE_KEY :: string where
  "STORAGE_KEY = ''fitcrm_clients''"

definition getClients :: "storage \<Rightarrow> js_error + json" where
  "getClients ls =
     (case ls STORAGE_KEY of
        None \<Rightarrow> Inr (JArr [])
      | Some data \<Rightarrow> if data = [] then Inr (JArr []) else JSON_parse data)"

text \<open>\<^verbatim>\<open>localStorage.setItem(STORAGE_KEY, JSON.stringify(clients));\<close>\<close>

definition saveClients :: "json \<Rightarrow> storage \<Rightarrow> storage" where
  "saveClients clients ls = ls(STORAGE_KEY \<mapsto> JSON_stringify clients)"

subsection \<open>Dynamic typing\<close>

text \<open>
  Reading a property \<open>v.k\<close>: of \<open>null\<close> it throws, of an object it gives the
  property or \<open>undefined\<close> (\<open>None\<close>), and of any other value \<open>undefined\<close>.  This
  is used for the names the program reads (\<open>id\<close>, \<open>exerciseHistory\<close>, \<open>results\<close>,
  \<open>translations\<close>, \<open>language\<close>, \<open>name\<close>, \<open>description\<close>, \<open>category\<close>), none of
  which is a built-in property of a string, number, boolean or array.
\<close>

definition get_prop :: "json \<Rightarrow> string \<Rightarrow> js_error + json option" where
  "get_prop v k =
     (case v of
        JNull \<Rightarrow> Inl TypeError
      | JObj fs \<Rightarrow> Inr (map_of fs k)
      | _ \<Rightarrow> Inr None)"

definition truthy :: "json \<Rightarrow> bool" where
  "truthy v =
     (case v of
        JNull \<Rightarrow> False
      | JBool b \<Rightarrow> b
      | JNum n \<Rightarrow> n \<noteq> 0
      | JStr s \<Rightarrow> s \<noteq> []
      | _ \<Rightarrow> True)"

text \<open>
  The receiver of \<open>push\<close>, \<open>filter\<close>, \<open>find\<close> and \<open>findIndex\<close>: on anything but
  an array the call throws, the method being absent or not a function.
\<close>

definition as_array :: "json \<Rightarrow> js_error + json list" where
  "as_array v = (case v of JArr xs \<Rightarrow> Inr xs | _ \<Rightarrow> Inl TypeError)"

text \<open>
  The three array methods, with a callback that may throw.  They visit the
  elements from the left; \<open>find\<close> and \<open>findIndex\<close> stop at the first hit.
\<close>

fun js_findIndex :: "('a \<Rightarrow> js_error + bool) \<Rightarrow> 'a list \<Rightarrow> js_error + nat option" where
  "js_findIndex p [] = Inr None"
| "js_findIndex p (x # xs) =
     (case p x of
        Inl err \<Rightarrow> Inl err
      | Inr True \<Rightarrow> Inr (Some 0)
      | Inr False \<Rightarrow>
          (case js_findIndex p xs of
             Inl err \<Rightarrow> Inl err
           | Inr None \<Rightarrow> Inr None
           | Inr (Some i) \<Rightarrow> Inr (Some (Suc i))))"

fun js_find :: "('a \<Rightarrow> js_error + bool) \<Rightarrow> 'a list \<Rightarrow> js_error + 'a option" where
  "js_find p [] = Inr None"
| "js_find p (x # xs) =
     (case p x of
        Inl err \<Rightarrow> Inl err
      | Inr True \<Rightarrow> Inr (Some x)
      | Inr False \<Rightarrow> js_find p xs)"

fun js_filter :: "('a \<Rightarrow> js_error + bool) \<Rightarrow> 'a list \<Rightarrow> js_error + 'a list" where
  "js_filter p [] = Inr []"
| "js_filter p (x # xs) =
     (case p x of
        Inl err \<Rightarrow> Inl err
      | Inr keep \<Rightarrow>
          (case js_filter p xs of
             Inl err \<Rightarrow> Inl err
           | Inr ys \<Rightarrow> Inr (if keep then x # ys else ys)))"

text \<open>The callbacks \<open>c => c.id === id\<close> and \<open>c => c.id !== id\<close>.\<close>

definition id_equals :: "string \<Rightarrow> json \<Rightarrow> js_error + bool" where
  "id_equals ident c =
     (case get_prop c ''id'' of Inl err \<Rightarrow> Inl err | Inr p \<Rightarrow> Inr (p = Some (JStr ident)))"

definition id_differs :: "string \<Rightarrow> json \<Rightarrow> js_error + bool" where
  "id_differs ident c =
     (case get_prop c ''id'' of Inl err \<Rightarrow> Inl err | Inr p \<Rightarrow> Inr (p \<noteq> Some (JStr ident)))"

text \<open>
  Object spread \<open>{...target, ...source}\<close> copies the own properties of the source
  in order onto the target.  The own properties of an array or a string are
  its indices; \<open>null\<close>, numbers and booleans have none.
\<close>

definition spread :: "(string \<times> json) list \<Rightarrow> (string \<times> json) list \<Rightarrow> (string \<times> json) list" where
  "spread target source = foldl (\<lambda>obj (k, v). obj_set obj k v) target source"

definition own_props :: "json \<Rightarrow> (string \<times> json) list" where
  "own_props v =
     (case v of
        JObj fs \<Rightarrow> fs
      | JArr xs \<Rightarrow> zip (map show_nat [0 ..< length xs]) xs
      | JStr s \<Rightarrow> zip (map show_nat [0 ..< length s]) (map (\<lambda>c. JStr [c]) s)
      | _ \<Rightarrow> [])"

subsection \<open>Client repository\<close>

text \<open>
  What the operations read from outside: the value of \<open>Date.now()\<close>, the
  radix-36 numeral of \<open>Math.random()\<close>, and \<open>new Date().toISOString()\<close>.
  An operation returns its result with the new storage, or the exception; an
  exception is always raised before the write, so it leaves the storage as it
  was.
\<close>

record ambient =
  Date_now :: nat
  Math_random_36 :: string
  Date_toISOString :: string

text \<open>
  \<^verbatim>\<open>const clients = getClients();\<close>
  \<^verbatim>\<open>const newClient = { id: generateId(), ...clientData,\<close>
  \<^verbatim>\<open>    createdAt: new Date().toISOString(), exerciseHistory: [] };\<close>
  \<^verbatim>\<open>clients.push(newClient); saveClients(clients); return newClient;\<close>
\<close>

definition addClient :: "(string \<times> json) list \<Rightarrow> ambient \<Rightarrow> storage \<Rightarrow> js_error + (json \<times> storage)" where
  "addClient clientData env ls =
     (case getClients ls of
        Inl err \<Rightarrow> Inl err
      | Inr clients \<Rightarrow>
          (let newClient =
                 JObj (obj_set
                         (obj_set
                            (spread [(''id'', JStr (generateId (Date_now env) (Math_random_36 env)))]
                               clientData)
                            ''createdAt'' (JStr (Date_toISOString env)))
                         ''exerciseHistory'' (JArr []))
           in case as_array clients of
                Inl err \<Rightarrow> Inl err
              | Inr cs \<Rightarrow> Inr (newClient, saveClients (JArr (cs @ [newClient])) ls)))"

text \<open>
  \<^verbatim>\<open>const index = clients.findIndex(c => c.id === id);\<close>
  \<^verbatim>\<open>if (index === -1) return null;\<close>
  \<^verbatim>\<open>clients[index] = { ...clients[index], ...updatedData,\<close>
  \<^verbatim>\<open>    updatedAt: new Date().toISOString() };\<close>
  \<^verbatim>\<open>saveClients(clients); return clients[index];\<close>
\<close>

definition updateClient ::
  "string \<Rightarrow> (string \<times> json) list \<Rightarrow> ambient \<Rightarrow> storage \<Rightarrow> js_error + (json \<times> storage)" where
  "updateClient ident updatedData env ls =
     (case getClients ls of
        Inl err \<Rightarrow> Inl err
      | Inr clients \<Rightarrow>
          (case as_array clients of
             Inl err \<Rightarrow> Inl err
           | Inr cs \<Rightarrow>
               (case js_findIndex (id_equals ident) cs of
                  Inl err \<Rightarrow> Inl err
                | Inr None \<Rightarrow> Inr (JNull, ls)
                | Inr (Some index) \<Rightarrow>
                    (let updated =
                           JObj (obj_set (spread (spread [] (own_props (cs ! index))) updatedData)
                                   ''updatedAt'' (JStr (Date_toISOString env)))
                     in Inr (updated, saveClients (JArr (cs[index := updated])) ls)))))"

text \<open>
  \<^verbatim>\<open>const filtered = clients.filter(c => c.id !== id);\<close>
  \<^verbatim>\<open>if (filtered.length === clients.length) return false;\<close>
  \<^verbatim>\<open>saveClients(filtered); return true;\<close>
\<close>

definition deleteClient :: "string \<Rightarrow> storage \<Rightarrow> js_error + (bool \<times> storage)" where
  "deleteClient ident ls =
     (case getClients ls of
        Inl err \<Rightarrow> Inl err
      | Inr clients \<Rightarrow>
          (case as_array clients of
             Inl err \<Rightarrow> Inl err
           | Inr cs \<Rightarrow>
               (case js_filter (id_differs ident) cs of
                  Inl err \<Rightarrow> Inl err
                | Inr filtered \<Rightarrow>
                    if length filtered = length cs then Inr (False, ls)
                    else Inr (True, saveClients (JArr filtered) ls))))"

text \<open>\<^verbatim>\<open>return clients.find(c => c.id === id) || null;\<close>\<close>

definition getClientById :: "string \<Rightarrow> storage \<Rightarrow> js_error + json" where
  "getClientById ident ls =
     (case getClients ls of
        Inl err \<Rightarrow> Inl err
      | Inr clients \<Rightarrow>
          (case as_array clients of
             Inl err \<Rightarrow> Inl err
           | Inr cs \<Rightarrow>
               (case js_find (id_equals ident) cs of
                  Inl err \<Rightarrow> Inl err
                | Inr None \<Rightarrow> Inr JNull
                | Inr (Some c) \<Rightarrow> Inr (if truthy c then c else JNull))))"

text \<open>
  \<^verbatim>\<open>const client = getClientById(clientId);\<close>
  \<^verbatim>\<open>if (!client) return null;\<close>
  \<^verbatim>\<open>const exerciseHistory = client.exerciseHistory || [];\<close>
  \<^verbatim>\<open>exerciseHistory.push({ id: generateId(), ...exerciseData });\<close>
  \<^verbatim>\<open>return updateClient(clientId, { exerciseHistory });\<close>
\<close>

definition addExerciseEntry ::
  "string \<Rightarrow> (string \<times> json) list \<Rightarrow> ambient \<Rightarrow> storage \<Rightarrow> js_error + (json \<times> storage)" where
  "addExerciseEntry clientId exerciseData env ls =
     (case getClientById clientId ls of
        Inl err \<Rightarrow> Inl err
      | Inr client \<Rightarrow>
          if \<not> truthy client then Inr (JNull, ls)
          else
            (case get_prop client ''exerciseHistory'' of
               Inl err \<Rightarrow> Inl err
             | Inr h \<Rightarrow>
                 (let exerciseHistory =
                        (case h of None \<Rightarrow> JArr [] | Some v \<Rightarrow> if truthy v then v else JArr [])
                  in case as_array exerciseHistory of
                       Inl err \<Rightarrow> Inl err
                     | Inr entries \<Rightarrow>
                         (let entry =
                                JObj (spread
                                        [(''id'', JStr (generateId (Date_now env) (Math_random_36 env)))]
                                        exerciseData)
                          in updateClient clientId
                               [(''exerciseHistory'', JArr (entries @ [entry]))] env ls))))"

text \<open>
  Vocabulary for the statements: a record has the identifier \<open>ident\<close>; the
  storage holds the collection \<open>cs\<close>, none of whose elements is \<open>null\<close>; the
  identifiers of a collection are pairwise different.
\<close>

definition has_id :: "string \<Rightarrow> json \<Rightarrow> bool" where
  "has_id ident c = (get_prop c ''id'' = Inr (Some (JStr ident)))"

definition holds_clients :: "storage \<Rightarrow> json list \<Rightarrow> bool" where
  "holds_clients ls cs = (getClients ls = Inr (JArr cs) \<and> JNull \<notin> set cs)"

definition client_id :: "json \<Rightarrow> json option" where
  "client_id c = (case c of JObj fs \<Rightarrow> map_of fs ''id'' | _ \<Rightarrow> None)"

definition unique_ids :: "json list \<Rightarrow> bool" where
  "unique_ids cs = distinct (map client_id cs)"

subsection \<open>Numbers\<close>

text \<open>
  A JavaScript number is an IEEE 754 double.  A finite double is modelled by
  its exact value, a rational, and an operation on doubles by the exact
  operation followed by \<open>round_double\<close>, which rounds to the nearest double,
  ties to the one with an even significand.  \<open>ilog2 x\<close> is the exponent \<open>e\<close>
  with \<open>2^e \<le> x < 2^(e+1)\<close>; \<open>ulp x\<close> is the distance between the doubles
  around \<open>x\<close>, which is \<open>2^(e-52)\<close>, and \<open>2^-1074\<close> below the normal range, whose
  least exponent is \<open>-1022\<close>.  A product that rounds to \<open>2^1024\<close> or more is
  \<open>Infinity\<close> in JavaScript and is left out: the only rounded operation of
  the module multiplies a number below 1 by an array index.
\<close>

function ilog2 :: "rat \<Rightarrow> int" where
  "ilog2 x = (if x \<le> 0 then 0
              else if x < 1 then ilog2 (2 * x) - 1
              else if 2 \<le> x then ilog2 (x / 2) + 1
              else 0)"
  by pat_completeness auto

termination ilog2
proof (relation "measure (\<lambda>x. if 1 \<le> x then nat \<lfloor>x\<rfloor> else nat \<lceil>1 / x\<rceil>)")
  show "wf (measure (\<lambda>x::rat. if 1 \<le> x then nat \<lfloor>x\<rfloor> else nat \<lceil>1 / x\<rceil>))"
    by simp
next
  fix x :: rat
  assume "\<not> x \<le> 0" and "x < 1"
  then have p: "0 < x" "x < 1" by simp_all
  have "(if 1 \<le> 2 * x then nat \<lfloor>2 * x\<rfloor> else nat \<lceil>1 / (2 * x)\<rceil>) < nat \<lceil>1 / x\<rceil>"
  proof (cases "1 \<le> 2 * x")
    case True
    have "2 * x < 2" using p by simp
    then have "\<lfloor>2 * x\<rfloor> < 2" by (simp add: floor_less_iff)
    moreover have "1 < 1 / x" using p by simp
    then have "1 < \<lceil>1 / x\<rceil>" by (simp add: less_ceiling_iff)
    ultimately have "nat \<lfloor>2 * x\<rfloor> < nat \<lceil>1 / x\<rceil>" by linarith
    then show ?thesis using True by simp
  next
    case False
    define y where "y = 1 / x"
    have h: "2 < y" using False p by (simp add: y_def field_simps)
    have e: "1 / (2 * x) = y / 2" by (simp add: y_def)
    have "y / 2 \<le> y - 1" using h by simp
    then have "\<lceil>y / 2\<rceil> \<le> \<lceil>y - 1\<rceil>" by (rule ceiling_mono)
    then have "\<lceil>y / 2\<rceil> < \<lceil>y\<rceil>" by simp
    moreover have "0 < \<lceil>y\<rceil>" using h by (simp add: less_ceiling_iff)
    ultimately have "nat \<lceil>y / 2\<rceil> < nat \<lceil>y\<rceil>" by linarith
    then show ?thesis using False by (simp add: e y_def)
  qed
  then show "(2 * x, x) \<in> measure (\<lambda>x. if 1 \<le> x then nat \<lfloor>x\<rfloor> else nat \<lceil>1 / x\<rceil>)"
    using p by simp
next
  fix x :: rat
  assume "\<not> x \<le> 0" and "\<not> x < 1" and a: "2 \<le> x"
  have "x / 2 \<le> x - 1" using a by simp
  then have "\<lfloor>x / 2\<rfloor> \<le> \<lfloor>x - 1\<rfloor>" by (rule floor_mono)
  then have "\<lfloor>x / 2\<rfloor> < \<lfloor>x\<rfloor>" by simp
  moreover have "0 < \<lfloor>x\<rfloor>" using a by (simp add: less_floor_iff)
  ultimately have "nat \<lfloor>x / 2\<rfloor> < nat \<lfloor>x\<rfloor>" by simp
  then show "(x / 2, x) \<in> measure (\<lambda>x. if 1 \<le> x then nat \<lfloor>x\<rfloor> else nat \<lceil>1 / x\<rceil>)"
    using a by simp
qed

declare ilog2.simps [simp del]

definition pow2 :: "int \<Rightarrow> rat" where
  "pow2 e = (if 0 \<le> e then 2 ^ nat e else 1 / 2 ^ nat (- e))"

definition ulp :: "rat \<Rightarrow> rat" where
  "ulp x = pow2 (max (ilog2 \<bar>x\<bar>) (- 1022) - 52)"

definition round_even :: "rat \<Rightarrow> int" where
  "round_even q =
     (let f = \<lfloor>q\<rfloor>
      in if q - of_int f < 1 / 2 then f
         else if 1 / 2 < q - of_int f then f + 1
         else if even f then f else f + 1)"

definition round_double :: "rat \<Rightarrow> rat" where
  "round_double x = of_int (round_even (x / ulp x)) * ulp x"

text \<open>The rationals that are doubles: the multiples of their own \<open>ulp\<close>.\<close>

definition is_double :: "rat \<Rightarrow> bool" where
  "is_double x = (of_int \<lfloor>x / ulp x\<rfloor> = x / ulp x \<and> \<bar>x\<bar> < 2 ^ 1024)"

subsection \<open>Exercise suggestions\<close>

text \<open>
  What \<open>await fetch(apiUrl, ...)\<close> can give: a rejection, or a response with
  its status and the result of \<open>response.json()\<close>, a value or an exception.
  \<open>response.ok\<close> holds for the statuses 200 to 299.
\<close>

datatype fetch_outcome = NetworkError | Response nat "js_error + json"

definition response_ok :: "nat \<Rightarrow> bool" where
  "response_ok status = (200 \<le> status \<and> status \<le> 299)"

text \<open>
  What the \<open>catch\<close> block can receive: the rejected fetch, the error thrown for
  a status that is not ok, an exception of the body, or the error thrown when
  no exercise has a name.  The handler does not look at it.
\<close>

datatype failure = FetchRejected | HttpError nat | Thrown js_error | NoExercises

text \<open>
  \<open>x || ''\<close> and \<open>x.trim()\<close>: only a string has \<open>trim\<close>, so on any other truthy
  value the call throws.
\<close>

definition or_empty :: "json option \<Rightarrow> json" where
  "or_empty p = (case p of None \<Rightarrow> JStr [] | Some v \<Rightarrow> if truthy v then v else JStr [])"

definition js_trim :: "json \<Rightarrow> js_error + string" where
  "js_trim v = (case v of JStr s \<Rightarrow> Inr (trim s) | _ \<Rightarrow> Inl TypeError)"

text \<open>
  \<^verbatim>\<open>const englishTrans = ex.translations.find(t => t.language === 2);\<close>
  \<^verbatim>\<open>if (englishTrans) { name = (englishTrans.name || '').trim();\<close>
  \<^verbatim>\<open>                     description = englishTrans.description || ''; }\<close>
  \<^verbatim>\<open>if (!name && ex.translations.length > 0) {\<close>
  \<^verbatim>\<open>    name = (ex.translations[0].name || '').trim();\<close>
  \<^verbatim>\<open>    description = ex.translations[0].description || ''; }\<close>
  inside \<open>if (ex.translations && Array.isArray(ex.translations))\<close>, with \<open>name\<close>
  and \<open>description\<close> empty at the start.
\<close>

definition is_english :: "json \<Rightarrow> js_error + bool" where
  "is_english t =
     (case get_prop t ''language'' of Inl err \<Rightarrow> Inl err | Inr p \<Rightarrow> Inr (p = Some (JNum 2)))"

definition translation_of :: "json \<Rightarrow> js_error + (string \<times> json)" where
  "translation_of t =
     (case get_prop t ''name'' of
        Inl err \<Rightarrow> Inl err
      | Inr n \<Rightarrow>
          (case js_trim (or_empty n) of
             Inl err \<Rightarrow> Inl err
           | Inr name \<Rightarrow>
               (case get_prop t ''description'' of
                  Inl err \<Rightarrow> Inl err
                | Inr d \<Rightarrow> Inr (name, or_empty d))))"

definition resolve_name :: "json \<Rightarrow> js_error + (string \<times> json)" where
  "resolve_name ex =
     (case get_prop ex ''translations'' of
        Inl err \<Rightarrow> Inl err
      | Inr (Some (JArr ts)) \<Rightarrow>
          (case js_find is_english ts of
             Inl err \<Rightarrow> Inl err
           | Inr englishTrans \<Rightarrow>
               (case (case englishTrans of
                        None \<Rightarrow> Inr ([], JStr [])
                      | Some t \<Rightarrow> if truthy t then translation_of t else Inr ([], JStr [])) of
                  Inl err \<Rightarrow> Inl err
                | Inr (name, description) \<Rightarrow>
                    if name = [] \<and> length ts > 0 then translation_of (ts ! 0)
                    else Inr (name, description)))
      | Inr _ \<Rightarrow> Inr ([], JStr []))"

text \<open>
  \<^verbatim>\<open>let categoryName = null;\<close>
  \<^verbatim>\<open>if (ex.category && typeof ex.category === 'object' && ex.category.name)\<close>
  \<^verbatim>\<open>    categoryName = ex.category.name;\<close>
\<close>

definition category_name :: "json \<Rightarrow> js_error + json" where
  "category_name ex =
     (case get_prop ex ''category'' of
        Inl err \<Rightarrow> Inl err
      | Inr None \<Rightarrow> Inr JNull
      | Inr (Some c) \<Rightarrow>
          if truthy c \<and> (case c of JObj _ \<Rightarrow> True | JArr _ \<Rightarrow> True | _ \<Rightarrow> False) then
            (case get_prop c ''name'' of
               Inl err \<Rightarrow> Inl err
             | Inr None \<Rightarrow> Inr JNull
             | Inr (Some n) \<Rightarrow> Inr (if truthy n then n else JNull))
          else Inr JNull)"

text \<open>
  One turn of the loop over \<open>data.results\<close>: \<open>None\<close> is the \<open>continue\<close> of a
  record without a name.  \<open>stripHtml\<close> reads the text of its argument through
  the DOM and is a parameter; \<open>substring(0, 200)\<close> keeps 200 code units.
\<close>

definition normalize_exercise :: "(json \<Rightarrow> string) \<Rightarrow> json \<Rightarrow> js_error + json option" where
  "normalize_exercise stripHtml ex =
     (case resolve_name ex of
        Inl err \<Rightarrow> Inl err
      | Inr (name, description) \<Rightarrow>
          if name = [] then Inr None
          else
            (let description =
                   (if truthy description then take 200 (stripHtml description)
                    else ''A great exercise for your fitness routine.'')
             in case category_name ex of
                  Inl err \<Rightarrow> Inl err
                | Inr categoryName \<Rightarrow>
                    Inr (Some (JObj [(''name'', JStr name), (''category'', categoryName),
                                     (''description'', JStr description)]))))"

fun collect_exercises :: "(json \<Rightarrow> string) \<Rightarrow> json list \<Rightarrow> json list \<Rightarrow> js_error + json list" where
  "collect_exercises stripHtml [] allExercises = Inr allExercises"
| "collect_exercises stripHtml (ex # rest) allExercises =
     (case normalize_exercise stripHtml ex of
        Inl err \<Rightarrow> Inl err
      | Inr None \<Rightarrow> collect_exercises stripHtml rest allExercises
      | Inr (Some e) \<Rightarrow> collect_exercises stripHtml rest (allExercises @ [e]))"

text \<open>
  The body of the \<open>try\<close> up to the test \<open>allExercises.length > 0\<close>: the
  normalized pool, or what is thrown.  \<open>data.results?.length\<close> in the log line
  reads \<open>data.results\<close> first, which throws on \<open>null\<close>.
\<close>

definition catalog_pool :: "(json \<Rightarrow> string) \<Rightarrow> fetch_outcome \<Rightarrow> failure + json list" where
  "catalog_pool stripHtml net =
     (case net of
        NetworkError \<Rightarrow> Inl FetchRejected
      | Response status body \<Rightarrow>
          if \<not> response_ok status then Inl (HttpError status)
          else
            (case body of
               Inl err \<Rightarrow> Inl (Thrown err)
             | Inr data \<Rightarrow>
                 (case get_prop data ''results'' of
                    Inl err \<Rightarrow> Inl (Thrown err)
                  | Inr results \<Rightarrow>
                      (case (case results of
                               Some (JArr rs) \<Rightarrow> collect_exercises stripHtml rs []
                             | _ \<Rightarrow> Inr []) of
                         Inl err \<Rightarrow> Inl (Thrown err)
                       | Inr allExercises \<Rightarrow>
                           if length allExercises > 0 then Inr allExercises
                           else Inl NoExercises))))"

text \<open>
  \<^verbatim>\<open>Math.floor(Math.random() * (i + 1))\<close>
  for the value \<open>r\<close> of \<open>Math.random()\<close>: \<open>i + 1\<close> is exact for an index of an
  array, the product is rounded, and \<open>Math.floor\<close> is exact.
\<close>

definition random_index :: "rat \<Rightarrow> nat \<Rightarrow> nat" where
  "random_index r i = nat \<lfloor>round_double (r * (rat_of_nat i + 1))\<rfloor>"

text \<open>
  \<^verbatim>\<open>for (let i = shuffled.length - 1; i > 0; i--) {\<close>
  \<^verbatim>\<open>    const j = Math.floor(Math.random() * (i + 1));\<close>
  \<^verbatim>\<open>    [shuffled[i], shuffled[j]] = [shuffled[j], shuffled[i]]; }\<close>
  \<open>random k\<close> is the value of the \<open>k\<close>-th call of \<open>Math.random()\<close>, which
  returns a double of \<open>[0, 1)\<close> (\<open>Math_random_range\<close>); for these \<open>j\<close> is at most
  \<open>i\<close> (lemma \<open>random_index_le\<close>).
\<close>

definition swap :: "nat \<Rightarrow> nat \<Rightarrow> 'a list \<Rightarrow> 'a list" where
  "swap i j xs = xs[i := xs ! j, j := xs ! i]"

fun shuffle_loop :: "(nat \<Rightarrow> rat) \<Rightarrow> nat \<Rightarrow> nat \<Rightarrow> 'a list \<Rightarrow> 'a list" where
  "shuffle_loop random calls 0 shuffled = shuffled"
| "shuffle_loop random calls (Suc i) shuffled =
     (let j = random_index (random calls) (Suc i)
      in shuffle_loop random (Suc calls) i (swap (Suc i) j shuffled))"

definition shuffleArray :: "(nat \<Rightarrow> rat) \<Rightarrow> 'a list \<Rightarrow> 'a list" where
  "shuffleArray random array = shuffle_loop random 0 (length array - 1) array"

definition Math_random_range :: "(nat \<Rightarrow> rat) \<Rightarrow> bool" where
  "Math_random_range random = (\<forall>k. is_double (random k) \<and> 0 \<le> random k \<and> random k < 1)"

text \<open>The static fallback tables of \<open>getFallbackExercises\<close>.\<close>

definition exercise :: "string \<Rightarrow> string \<Rightarrow> json" where
  "exercise name description = JObj [(''name'', JStr name), (''description'', JStr description)]"

definition weight_loss_table :: "json list" where
  "weight_loss_table =
     [exercise ''Jumping Jacks'' ''Full body cardio exercise. Jump while spreading legs and raising arms overhead.'',
      exercise ''Burpees'' ''High-intensity exercise combining squat, plank, and jump.'',
      exercise ''Mountain Climbers'' ''Core and cardio exercise in plank position with alternating knee drives.'',
      exercise ''High Knees'' ''Running in place while lifting knees to hip level.'',
      exercise ''Jump Rope'' ''Classic cardio exercise for endurance and coordination.'']"

definition muscle_gain_table :: "json list" where
  "muscle_gain_table =
     [exercise ''Push-ups'' ''Upper body exercise targeting chest, shoulders, and triceps.'',
      exercise ''Squats'' ''Lower body exercise for quadriceps, hamstrings, and glutes.'',
      exercise ''Lunges'' ''Unilateral leg exercise for strength and balance.'',
      exercise ''Plank'' ''Isometric core exercise for stability and strength.'',
      exercise ''Dumbbell Rows'' ''Back exercise targeting lats and biceps.'']"

definition general_fitness_table :: "json list" where
  "general_fitness_table =
     [exercise ''Walking'' ''Low-impact cardio for overall health and endurance.'',
      exercise ''Stretching'' ''Flexibility exercises for mobility and injury prevention.'',
      exercise ''Bodyweight Squats'' ''Functional movement for lower body strength.'',
      exercise ''Plank Hold'' ''Core stability exercise for posture and strength.'',
      exercise ''Arm Circles'' ''Shoulder mobility and warm-up exercise.'']"

text \<open>
  \<^verbatim>\<open>return exercises[goal] || exercises['General Fitness'];\<close>
  \<open>exercises\<close> is an object literal, so a goal that names a member of
  \<open>Object.prototype\<close> finds that member, which is truthy and not an array
  (\<open>None\<close> here); spreading it in \<open>shuffleArray\<close> throws \<open>TypeError\<close>.  A goal
  of \<open>null\<close> is read as the key \<open>null\<close>, which is absent.
\<close>

definition object_prototype_names :: "string list" where
  "object_prototype_names =
     [''constructor'', ''__proto__'', ''hasOwnProperty'', ''isPrototypeOf'', ''propertyIsEnumerable'',
      ''toLocaleString'', ''toString'', ''valueOf'', ''__defineGetter__'', ''__defineSetter__'',
      ''__lookupGetter__'', ''__lookupSetter__'']"

definition getFallbackExercises :: "string option \<Rightarrow> json list option" where
  "getFallbackExercises goal =
     (case goal of
        None \<Rightarrow> Some general_fitness_table
      | Some g \<Rightarrow>
          if g = ''Weight Loss'' then Some weight_loss_table
          else if g = ''Muscle Gain'' then Some muscle_gain_table
          else if g = ''General Fitness'' then Some general_fitness_table
          else if g \<in> set object_prototype_names then None
          else Some general_fitness_table)"

text \<open>
  \<open>fetchSuggestedExercises(goal, limit)\<close>: the result the promise resolves to,
  or the exception it rejects with.
\<close>

record suggestion =
  success :: bool
  exercises :: "json list"
  error :: "string option"

definition fetchSuggestedExercises ::
  "(json \<Rightarrow> string) \<Rightarrow> (nat \<Rightarrow> rat) \<Rightarrow> fetch_outcome \<Rightarrow> string option \<Rightarrow> nat
     \<Rightarrow> js_error + suggestion" where
  "fetchSuggestedExercises stripHtml random net goal limit =
     (case catalog_pool stripHtml net of
        Inr allExercises \<Rightarrow>
          Inr \<lparr> success = True,
                exercises = take limit (shuffleArray random allExercises),
                error = None \<rparr>
      | Inl caught \<Rightarrow>
          (case getFallbackExercises goal of
             None \<Rightarrow> Inl TypeError
           | Some table \<Rightarrow>
               Inr \<lparr> success = False,
                     exercises = take limit (shuffleArray random table),
                     error = Some ''Unable to load suggested exercises right now.'' \<rparr>))"

text \<open>
  How \<open>Math.random()\<close> chooses its value is left to the engine.  An engine that
  draws \<open>bits\<close> random bits, 53 at most, returns each multiple of \<open>2^-bits\<close>
  below 1 with the same probability.  \<open>index_count bits i j\<close> is the number of
  these values for which the index chosen at position \<open>i\<close> is \<open>j\<close>, and the
  index at position \<open>i\<close> is uniformly chosen when each of \<open>0..i\<close> has the share
  \<open>1 / (i + 1)\<close> of the values.
\<close>

definition random_values :: "nat \<Rightarrow> rat set" where
  "random_values bits = (\<lambda>m. rat_of_nat m / 2 ^ bits) ` {..<2 ^ bits}"

definition index_count :: "nat \<Rightarrow> nat \<Rightarrow> nat \<Rightarrow> nat" where
  "index_count bits i j = card {r \<in> random_values bits. random_index r i = j}"

definition uniformly_chosen :: "nat \<Rightarrow> nat \<Rightarrow> bool" where
  "uniformly_chosen bits i = (\<forall>j \<le> i. index_count bits i j * (i + 1) = 2 ^ bits)"

subsection \<open>A concrete storage\<close>

text \<open>
  One stored client, the fields of a second one, and two readings of the
  ambient sources at the same millisecond: one whose random numeral is \<open>0.i\<close>,
  so that the generated identifier is the one the stored client already has,
  and one with a longer numeral.  \<open>demo_collision\<close> is the record \<open>addClient\<close>
  builds under the first reading.
\<close>

definition demo_client :: json where
  "demo_client = JObj [(''id'', JStr ''client_1700000000000_i''), (''fullName'', JStr ''Sara Ahmed''),
                       (''age'', JNum 28), (''exerciseHistory'', JArr [])]"

definition demo_store :: storage where
  "demo_store = saveClients (JArr [demo_client]) Map.empty"

definition demo_env :: ambient where
  "demo_env = \<lparr> Date_now = 1700000000000, Math_random_36 = ''0.i'',
                 Date_toISOString = ''2023-11-14T22:13:20.000Z'' \<rparr>"

definition demo_env_fresh :: ambient where
  "demo_env_fresh = \<lparr> Date_now = 1700000000000, Math_random_36 = ''0.4fzyo82mvyr'',
                       Date_toISOString = ''2023-11-14T22:13:20.000Z'' \<rparr>"

definition demo_fields :: "(string \<times> json) list" where
  "demo_fields = [(''fullName'', JStr ''Omar Hassan''), (''age'', JNum 32)]"

definition demo_collision :: json where
  "demo_collision = JObj [(''id'', JStr ''client_1700000000000_i''),
                          (''fullName'', JStr ''Omar Hassan''), (''age'', JNum 32),
                          (''createdAt'', JStr ''2023-11-14T22:13:20.000Z''),
                          (''exerciseHistory'', JArr [])]"

subsection \<open>A concrete catalog\<close>

text \<open>
  A response with six named records, each with an English translation and a
  category, the pool they normalize to, a stand-in for \<open>stripHtml\<close> on plain
  text, and a random source that always returns the double nearest to one
  third.
\<close>

definition catalog_record :: "string \<Rightarrow> string \<Rightarrow> string \<Rightarrow> json" where
  "catalog_record name description category =
     JObj [(''translations'',
              JArr [JObj [(''language'', JNum 2), (''name'', JStr name),
                          (''description'', JStr description)]]),
           (''category'', JObj [(''name'', JStr category)])]"

definition demo_catalog :: json where
  "demo_catalog =
     JObj [(''results'',
              JArr [catalog_record ''Squat'' ''Bend the knees.'' ''Legs'',
                    catalog_record ''Push-up'' ''Lower and raise the body.'' ''Chest'',
                    catalog_record ''Plank'' ''Hold the body straight.'' ''Abs'',
                    catalog_record ''Lunge'' ''Step forward and bend.'' ''Legs'',
                    catalog_record ''Crunch'' ''Curl the trunk.'' ''Abs'',
                    catalog_record ''Pull-up'' ''Raise the chin over the bar.'' ''Back''])]"

definition demo_strip :: "json \<Rightarrow> string" where
  "demo_strip v = (case v of JStr s \<Rightarrow> s | _ \<Rightarrow> [])"

definition suggested :: "string \<Rightarrow> string \<Rightarrow> string \<Rightarrow> json" where
  "suggested name category description =
     JObj [(''name'', JStr name), (''category'', JStr category), (''description'', JStr description)]"

definition demo_pool :: "json list" where
  "demo_pool =
     [suggested ''Squat'' ''Legs'' ''Bend the knees.'',
      suggested ''Push-up'' ''Chest'' ''Lower and raise the body.'',
      suggested ''Plank'' ''Abs'' ''Hold the body straight.'',
      suggested ''Lunge'' ''Legs'' ''Step forward and bend.'',
      suggested ''Crunch'' ''Abs'' ''Curl the trunk.'',
      suggested ''Pull-up'' ''Back'' ''Raise the chin over the bar.'']"

definition demo_random :: "nat \<Rightarrow> rat" where
  "demo_random k = 6004799503160661 / 18014398509481984"

subsection \<open>Regular expressions\<close>

text \<open>
  The two patterns of the validator use character classes, concatenation,
  \<open>+\<close> and a counted repetition \<open>{m,n}\<close>, anchored at both ends.  \<open>regex_test\<close>
  decides whether the whole string matches, by derivatives.
\<close>

datatype rexp =
    Zero
  | One
  | Cls "char \<Rightarrow> bool"
  | Alt rexp rexp
  | Seq rexp rexp
  | Star rexp
  | Rep nat nat rexp

fun nullable :: "rexp \<Rightarrow> bool" where
  "nullable Zero = False"
| "nullable One = True"
| "nullable (Cls p) = False"
| "nullable (Alt r s) = (nullable r \<or> nullable s)"
| "nullable (Seq r s) = (nullable r \<and> nullable s)"
| "nullable (Star r) = True"
| "nullable (Rep m n r) = (m \<le> n \<and> (m = 0 \<or> nullable r))"

fun deriv :: "char \<Rightarrow> rexp \<Rightarrow> rexp" where
  "deriv c Zero = Zero"
| "deriv c One = Zero"
| "deriv c (Cls p) = (if p c then One else Zero)"
| "deriv c (Alt r s) = Alt (deriv c r) (deriv c s)"
| "deriv c (Seq r s) =
     (if nullable r then Alt (Seq (deriv c r) s) (deriv c s) else Seq (deriv c r) s)"
| "deriv c (Star r) = Seq (deriv c r) (Star r)"
| "deriv c (Rep m n r) =
     (if n = 0 \<or> n < m then Zero else Seq (deriv c r) (Rep (m - 1) (n - 1) r))"

definition regex_test :: "rexp \<Rightarrow> string \<Rightarrow> bool" where
  "regex_test r s = nullable (foldl (\<lambda>r c. deriv c r) r s)"

definition Plus :: "rexp \<Rightarrow> rexp" where
  "Plus r = Seq r (Star r)"

subsection \<open>Form validation\<close>

text \<open>\<^verbatim>\<open>/^[^\s@]+@[^\s@]+\.[^\s@]+$/\<close>\<close>

definition emailRegex :: rexp where
  "emailRegex =
     (let part = Plus (Cls (\<lambda>c. \<not> is_js_space c \<and> c \<noteq> CHR ''@''))
      in Seq part (Seq (Cls (\<lambda>c. c = CHR ''@'')) (Seq part (Seq (Cls (\<lambda>c. c = CHR ''.'')) part))))"

text \<open>\<^verbatim>\<open>/^[\d\s\-\(\)\+]{7,20}$/\<close>\<close>

definition phoneRegex :: rexp where
  "phoneRegex = Rep 7 20 (Cls (\<lambda>c. is_digit c \<or> is_js_space c \<or> c \<in> set ''-()+''))"

definition isValidEmail :: "string \<Rightarrow> bool" where
  "isValidEmail email = regex_test emailRegex email"

definition isValidPhone :: "string \<Rightarrow> bool" where
  "isValidPhone phone = regex_test phoneRegex phone"

text \<open>
  The form is the list of its entries, name and value; \<open>FormData.get\<close> gives the
  first value under a name, or \<open>null\<close> (\<open>None\<close>).
\<close>

type_synonym form_data = "(string \<times> string) list"

type_synonym error_map = "(string \<times> string) list"

definition FormData_get :: "form_data \<Rightarrow> string \<Rightarrow> string option" where
  "FormData_get form name = map_of form name"

record validation =
  isValid :: bool
  errors :: error_map

text \<open>
  \<open>validateClientForm\<close> runs seven blocks one after the other on the same
  \<open>errors\<close> object; each block is a definition here.  \<open>x?.trim()\<close> of \<open>null\<close> is
  \<open>undefined\<close>, and \<open>!x\<close> holds of \<open>undefined\<close>, \<open>null\<close> and the empty string.
\<close>

definition check_fullName :: "form_data \<Rightarrow> error_map \<Rightarrow> error_map" where
  "check_fullName form errs =
     (let fullName = map_option trim (FormData_get form ''fullName'')
      in case fullName of
           None \<Rightarrow> obj_set errs ''fullName'' ''Full name is required''
         | Some n \<Rightarrow>
             if n = [] then obj_set errs ''fullName'' ''Full name is required''
             else if length n < 2
               then obj_set errs ''fullName'' ''Name must be at least 2 characters''
             else errs)"

text \<open>
  \<open>parseInt(formData.get('age'))\<close>: a missing entry is \<open>null\<close>, which \<open>parseInt\<close>
  reads as the string \<open>null\<close>.  \<open>!age\<close> holds of \<open>NaN\<close> and of zero.
\<close>

definition check_age :: "form_data \<Rightarrow> error_map \<Rightarrow> error_map" where
  "check_age form errs =
     (let age = parseInt (case FormData_get form ''age'' of None \<Rightarrow> ''null'' | Some a \<Rightarrow> a)
      in case age of
           None \<Rightarrow> obj_set errs ''age'' ''Age is required''
         | Some a \<Rightarrow>
             if a = 0 then obj_set errs ''age'' ''Age is required''
             else if a < 1 \<or> a > 120
               then obj_set errs ''age'' ''Age must be between 1 and 120''
             else errs)"

definition check_gender :: "form_data \<Rightarrow> error_map \<Rightarrow> error_map" where
  "check_gender form errs =
     (let gender = FormData_get form ''gender''
      in if gender = None \<or> gender = Some []
           then obj_set errs ''gender'' ''Please select a gender''
         else errs)"

definition check_email :: "form_data \<Rightarrow> error_map \<Rightarrow> error_map" where
  "check_email form errs =
     (let email = map_option trim (FormData_get form ''email'')
      in case email of
           None \<Rightarrow> obj_set errs ''email'' ''Email is required''
         | Some e \<Rightarrow>
             if e = [] then obj_set errs ''email'' ''Email is required''
             else if \<not> isValidEmail e
               then obj_set errs ''email'' ''Please enter a valid email address''
             else errs)"

definition check_phone :: "form_data \<Rightarrow> error_map \<Rightarrow> error_map" where
  "check_phone form errs =
     (let phone = map_option trim (FormData_get form ''phone'')
      in case phone of
           None \<Rightarrow> obj_set errs ''phone'' ''Phone number is required''
         | Some p \<Rightarrow>
             if p = [] then obj_set errs ''phone'' ''Phone number is required''
             else if \<not> isValidPhone p
               then obj_set errs ''phone'' ''Please enter a valid phone number''
             else errs)"

definition check_goal :: "form_data \<Rightarrow> error_map \<Rightarrow> error_map" where
  "check_goal form errs =
     (let goal = FormData_get form ''goal''
      in if goal = None \<or> goal = Some []
           then obj_set errs ''goal'' ''Please select a fitness goal''
         else errs)"

definition check_startDate :: "form_data \<Rightarrow> error_map \<Rightarrow> error_map" where
  "check_startDate form errs =
     (let startDate = FormData_get form ''startDate''
      in if startDate = None \<or> startDate = Some []
           then obj_set errs ''startDate'' ''Membership start date is required''
         else errs)"

text \<open>
  The result: \<open>isValid: Object.keys(errors).length === 0\<close> and the error map.
  The function reads the form and returns this record; it has no access to
  the stored collection.
\<close>

definition validateClientForm :: "form_data \<Rightarrow> validation" where
  "validateClientForm form =
     (let errs = [];
          errs = check_fullName form errs;
          errs = check_age form errs;
          errs = check_gender form errs;
          errs = check_email form errs;
          errs = check_phone form errs;
          errs = check_goal form errs;
          errs = check_startDate form errs
      in \<lparr> isValid = (length (map fst errs) = 0), errors = errs \<rparr>)"

text \<open>The two forms of the specification's validator example.\<close>

definition valid_example :: form_data where
  "valid_example =
     [(''fullName'', ''Al''), (''age'', ''30''), (''gender'', ''Male''), (''email'', ''a@b.co''),
      (''phone'', ''1234567''), (''goal'', ''Weight Loss''), (''startDate'', ''2025-01-01'')]"

definition invalid_example :: form_data where
  "invalid_example =
     [(''fullName'', ''A''), (''age'', ''200''), (''email'', ''bad''), (''phone'', ''12'')]"

section \<open>Properties\<close>

subsection \<open>Decimal numerals\<close>

lemma digit_char_is_digit: "d < 10 \<Longrightarrow> is_digit (digit_char d)"
proof -
  assume "d < 10"
  then have "d \<in> {0, 1, 2, 3, 4, 5, 6, 7, 8, 9}" by auto
  then show ?thesis
    by (auto simp: is_digit_def digit_char_def)
qed

lemma show_nat_digits: "list_all is_digit (show_nat n)"
proof (induction n rule: show_nat.induct)
  case (1 n)
  show ?case
  proof (cases "n < 10")
    case True
    then show ?thesis
      by (subst show_nat.simps) (simp add: digit_char_is_digit)
  next
    case False
    then have "list_all is_digit (show_nat (n div 10))" using 1 by simp
    moreover have "is_digit (digit_char (n mod 10))"
      by (rule digit_char_is_digit) simp
    ultimately show ?thesis using False
      by (subst show_nat.simps) simp
  qed
qed

lemma show_nat_nonempty: "show_nat n \<noteq> []"
  by (subst show_nat.simps) simp

subsection \<open>\<open>JSON.parse\<close> after \<open>JSON.stringify\<close>\<close>

lemma digit_char_table:
  "\<forall>d \<in> set [0 ..< 10]. hex_value (digit_char d) = Some d \<and> (digit_char d = CHR ''0'') = (d = 0)"
  by code_simp

lemma digit_char_value: "d < 10 \<Longrightarrow> hex_value (digit_char d) = Some d"
  using digit_char_table by simp

lemma digits_value_snoc: "digits_value r (ds @ [d]) = digits_value r ds * r + d"
  by (simp add: digits_value_def)

lemma show_nat_value: "digits_value 10 (map (\<lambda>c. the (hex_value c)) (show_nat n)) = n"
proof (induction n rule: show_nat.induct)
  case (1 n)
  show ?case
  proof (cases "n < 10")
    case True
    then show ?thesis
      by (subst show_nat.simps) (simp add: digit_char_value digits_value_def)
  next
    case False
    then have "digits_value 10 (map (\<lambda>c. the (hex_value c)) (show_nat (n div 10))) = n div 10"
      using 1 by simp
    then show ?thesis using False
      by (subst show_nat.simps) (simp add: digits_value_snoc digit_char_value)
  qed
qed

lemma digit_char_zero: "d < 10 \<Longrightarrow> (digit_char d = CHR ''0'') = (d = 0)"
  using digit_char_table by simp

lemma show_nat_zero: "show_nat 0 = ''0''"
  by (simp add: show_nat.simps digit_char_def)

lemma show_nat_hd: "0 < n \<Longrightarrow> \<exists>c cs. show_nat n = c # cs \<and> is_digit c \<and> c \<noteq> CHR ''0''"
proof (induction n rule: show_nat.induct)
  case (1 n)
  show ?case
  proof (cases "n < 10")
    case True
    then show ?thesis using "1.prems"
      by (subst show_nat.simps) (simp add: digit_char_is_digit digit_char_zero)
  next
    case False
    then have "\<exists>c cs. show_nat (n div 10) = c # cs \<and> is_digit c \<and> c \<noteq> CHR ''0''"
      using 1 by simp
    then show ?thesis using False
      by (subst show_nat.simps) auto
  qed
qed

lemma takeWhile_digits:
  "list_all is_digit ds \<Longrightarrow> follow_ok r \<Longrightarrow> takeWhile is_digit (ds @ r) = ds"
  by (induction ds) (auto simp: follow_ok_def split: list.splits)

lemma follow_ok_take:
  "follow_ok r \<Longrightarrow> take 1 r \<noteq> ''.'' \<and> take 1 r \<noteq> ''e'' \<and> take 1 r \<noteq> ''E''"
  by (cases r) (auto simp: follow_ok_def)

lemma parse_number_digits:
  assumes ds: "list_all is_digit (c # cs)" and z: "c = CHR ''0'' \<longrightarrow> cs = []" and r: "follow_ok r"
  shows "parse_number (c # cs @ r)
           = Inr (JNum (int (digits_value 10 (map (\<lambda>c. the (hex_value c)) (c # cs)))), r)"
proof -
  have nm: "c \<noteq> CHR ''-''" using ds by (auto simp: is_digit_def)
  have tw: "takeWhile is_digit (c # cs @ r) = c # cs"
    using takeWhile_digits [OF ds r] by simp
  note f = follow_ok_take [OF r]
  show ?thesis
  proof (cases "c = CHR ''0''")
    case True
    then show ?thesis using z f by (simp add: parse_number_def Let_def)
  next
    case False
    then show ?thesis using nm tw f by (simp add: parse_number_def Let_def)
  qed
qed

lemma parse_number_minus:
  assumes ds: "list_all is_digit (c # cs)" and z: "c = CHR ''0'' \<longrightarrow> cs = []" and r: "follow_ok r"
  shows "parse_number (CHR ''-'' # c # cs @ r)
           = Inr (JNum (- int (digits_value 10 (map (\<lambda>c. the (hex_value c)) (c # cs)))), r)"
proof -
  have tw: "takeWhile is_digit (c # cs @ r) = c # cs"
    using takeWhile_digits [OF ds r] by simp
  note f = follow_ok_take [OF r]
  show ?thesis
  proof (cases "c = CHR ''0''")
    case True
    then show ?thesis using z f by (simp add: parse_number_def Let_def)
  next
    case False
    then show ?thesis using tw f by (simp add: parse_number_def Let_def)
  qed
qed

lemma show_nat_shape:
  "\<exists>c cs. show_nat n = c # cs \<and> list_all is_digit (c # cs) \<and> (c = CHR ''0'' \<longrightarrow> cs = [])"
proof (cases "n = 0")
  case True
  then show ?thesis by (simp add: show_nat_zero is_digit_def)
next
  case False
  then obtain c cs where h: "show_nat n = c # cs" "c \<noteq> CHR ''0''"
    using show_nat_hd [of n] by auto
  then show ?thesis using show_nat_digits [of n] by simp
qed

lemma parse_int_roundtrip:
  assumes "follow_ok r"
  shows "parse_number (show_int i @ r) = Inr (JNum i, r)"
proof -
  define n where "n = nat \<bar>i\<bar>"
  obtain c cs where h: "show_nat n = c # cs" "list_all is_digit (c # cs)" "c = CHR ''0'' \<longrightarrow> cs = []"
    using show_nat_shape [of n] by blast
  have v: "digits_value 10 (map (\<lambda>c. the (hex_value c)) (c # cs)) = n"
    using show_nat_value [of n] h(1) by simp
  show ?thesis
  proof (cases "i < 0")
    case True
    then have "show_int i @ r = CHR ''-'' # c # cs @ r"
      using h(1) by (simp add: show_int_def n_def)
    then show ?thesis
      using parse_number_minus [OF h(2) h(3) assms] v True by (simp add: n_def)
  next
    case False
    then have "show_int i @ r = c # cs @ r"
      using h(1) by (simp add: show_int_def n_def)
    then show ?thesis
      using parse_number_digits [OF h(2) h(3) assms] v False by (simp add: n_def)
  qed
qed

lemma hex4_control_all:
  "\<forall>n \<in> set [0 ..< 32]. hex4 [CHR ''0'', CHR ''0'', hex_digit (n div 16), hex_digit (n mod 16)] = Some n"
  by code_simp

lemma hex4_control:
  "n < 32 \<Longrightarrow> hex4 [CHR ''0'', CHR ''0'', hex_digit (n div 16), hex_digit (n mod 16)] = Some n"
  using hex4_control_all by simp

lemma parse_string_control:
  assumes "(of_char c :: nat) < 32"
  shows "parse_string (CHR 0x5C # CHR ''u'' # CHR ''0'' # CHR ''0'' #
              hex_digit (of_char c div 16) # hex_digit (of_char c mod 16) # t) =
     (case parse_string t of Inl err \<Rightarrow> Inl err | Inr (s, rest) \<Rightarrow> Inr (c # s, rest))"
  using assms by (simp add: hex4_control split: sum.splits)

lemma parse_string_short:
  assumes "unescape e = Some c" "e \<noteq> CHR ''u''"
  shows "parse_string (CHR 0x5C # e # t) =
     (case parse_string t of Inl err \<Rightarrow> Inl err | Inr (s, rest) \<Rightarrow> Inr (c # s, rest))"
  using assms by simp

lemma parse_string_plain:
  assumes "c \<noteq> CHR 0x22" "c \<noteq> CHR 0x5C" "\<not> (of_char c :: nat) < 32"
  shows "parse_string (c # t) =
     (case parse_string t of Inl err \<Rightarrow> Inl err | Inr (s, rest) \<Rightarrow> Inr (c # s, rest))"
  using assms by simp

lemma parse_string_escape:
  "parse_string (escape_char c @ t) =
     (case parse_string t of Inl err \<Rightarrow> Inl err | Inr (s, rest) \<Rightarrow> Inr (c # s, rest))"
proof (cases "c = CHR 0x22 \<or> c = CHR 0x5C")
  case True
  then have "escape_char c = [CHR 0x5C, c]" "unescape c = Some c" "c \<noteq> CHR ''u''"
    by (auto simp: escape_char_def unescape_def)
  then show ?thesis using parse_string_short [of c c t]
    by (simp del: parse_string.simps)
next
  case nq: False
  show ?thesis
  proof (cases "c = CHR 0x08 \<or> c = CHR 0x09 \<or> c = CHR 0x0A \<or> c = CHR 0x0C \<or> c = CHR 0x0D")
    case True
    then have "\<exists>e. escape_char c = [CHR 0x5C, e] \<and> unescape e = Some c \<and> e \<noteq> CHR ''u''"
      by (auto simp: escape_char_def unescape_def)
    then obtain e where "escape_char c = [CHR 0x5C, e]" "unescape e = Some c" "e \<noteq> CHR ''u''"
      by blast
    then show ?thesis using parse_string_short [of e c t]
      by (simp del: parse_string.simps)
  next
    case ns: False
    show ?thesis
    proof (cases "(of_char c :: nat) < 32")
      case True
      then have "escape_char c = [CHR 0x5C, CHR ''u'', CHR ''0'', CHR ''0'',
              hex_digit (of_char c div 16), hex_digit (of_char c mod 16)]"
        using nq ns by (simp add: escape_char_def)
      then show ?thesis using parse_string_control [OF True, of t]
        by (simp del: parse_string.simps)
    next
      case False
      then have "escape_char c = [c]" using nq ns by (simp add: escape_char_def)
      then show ?thesis using parse_string_plain [of c t] nq False
        by (simp del: parse_string.simps)
    qed
  qed
qed

lemma parse_string_roundtrip:
  "parse_string (concat (map escape_char s) @ CHR 0x22 # r) = Inr (s, r)"
proof (induction s)
  case Nil
  show ?case by simp
next
  case (Cons c s)
  show ?case
    using parse_string_escape [of c "concat (map escape_char s) @ CHR 0x22 # r"] Cons
    by (simp del: parse_string.simps)
qed

lemma parse_string_quote:
  "parse_string (tl (quote s) @ r) = Inr (s, r)"
  using parse_string_roundtrip [of s r] by (simp add: quote_def)

lemma value_start_not_ws: "value_start c \<Longrightarrow> \<not> is_json_ws c"
  by (auto simp: value_start_def is_json_ws_def)

lemma skip_ws_start: "\<not> is_json_ws c \<Longrightarrow> skip_ws (c # cs) = c # cs"
  by (simp add: skip_ws_def)

lemma show_int_first:
  "\<exists>c cs. show_int i = c # cs \<and> (c = CHR ''-'' \<or> is_digit c)"
proof -
  obtain c cs where "show_nat (nat \<bar>i\<bar>) = c # cs" "list_all is_digit (c # cs)"
    using show_nat_shape [of "nat \<bar>i\<bar>"] by blast
  then show ?thesis
    by (cases "i < 0") (auto simp: show_int_def)
qed

lemma digit_value_start: "c = CHR ''-'' \<or> is_digit c \<Longrightarrow> value_start c"
  by (auto simp: value_start_def is_digit_def)

lemma value_first: "\<exists>c cs. JSON_stringify v = c # cs \<and> value_start c"
proof (cases v)
  case (JNum i)
  then show ?thesis using show_int_first [of i] digit_value_start by auto
qed (auto simp: value_start_def quote_def)

lemma elements_first: "xs \<noteq> [] \<Longrightarrow> \<exists>c cs. stringify_elements xs = c # cs \<and> value_start c"
proof (cases xs)
  case Nil
  assume "xs \<noteq> []"
  with Nil show ?thesis by simp
next
  case (Cons x ys)
  obtain c cs where "JSON_stringify x = c # cs" "value_start c"
    using value_first [of x] by blast
  then show ?thesis using Cons by (cases ys) auto
qed

lemma members_first: "fs \<noteq> [] \<Longrightarrow> \<exists>cs. stringify_members fs = CHR 0x22 # cs"
proof (cases fs)
  case Nil
  assume "fs \<noteq> []"
  with Nil show ?thesis by simp
next
  case (Cons f gs)
  then show ?thesis by (cases f; cases gs) (auto simp: quote_def)
qed

lemma parse_value_null: "parse_value (Suc m) (''null'' @ r) = Inr (JNull, r)"
  by (simp add: skip_ws_def is_json_ws_def is_digit_def)

lemma parse_value_true: "parse_value (Suc m) (''true'' @ r) = Inr (JBool True, r)"
  by (simp add: skip_ws_def is_json_ws_def is_digit_def)

lemma parse_value_false: "parse_value (Suc m) (''false'' @ r) = Inr (JBool False, r)"
  by (simp add: skip_ws_def is_json_ws_def is_digit_def)

lemma parse_value_number:
  assumes "follow_ok r"
  shows "parse_value (Suc m) (show_int i @ r) = Inr (JNum i, r)"
proof -
  obtain c cs where h: "show_int i = c # cs" "c = CHR ''-'' \<or> is_digit c"
    using show_int_first [of i] by blast
  have ws: "skip_ws (c # cs @ r) = c # cs @ r"
    using h(2) by (intro skip_ws_start value_start_not_ws digit_value_start)
  have ne: "c \<noteq> CHR ''{''" "c \<noteq> CHR ''[''" "c \<noteq> CHR 0x22"
    using h(2) by (auto simp: is_digit_def)
  have "parse_value (Suc m) (c # cs @ r) = parse_number (c # cs @ r)"
    using ws ne h(2) by simp
  then show ?thesis using parse_int_roundtrip [OF assms, of i] h(1) by simp
qed

lemma parse_value_string: "parse_value (Suc m) (quote s @ r) = Inr (JStr s, r)"
proof -
  have q: "quote s @ r = CHR 0x22 # tl (quote s) @ r" by (simp add: quote_def)
  have ws: "skip_ws (CHR 0x22 # tl (quote s) @ r) = CHR 0x22 # tl (quote s) @ r"
    by (simp add: skip_ws_def is_json_ws_def)
  show ?thesis
    unfolding q using ws parse_string_quote [of s r] by simp
qed

lemma parse_value_empty_array: "parse_value (Suc m) (''[]'' @ r) = Inr (JArr [], r)"
  by (simp add: skip_ws_def is_json_ws_def)

lemma parse_value_empty_object: "parse_value (Suc m) (''{}'' @ r) = Inr (JObj [], r)"
  by (simp add: skip_ws_def is_json_ws_def)

lemma parse_value_array:
  assumes "value_start c"
  shows "parse_value (Suc m) (CHR ''['' # c # cs) = parse_elements m (c # cs) []"
proof -
  have "skip_ws (c # cs) = c # cs"
    using assms by (intro skip_ws_start value_start_not_ws)
  moreover have "c \<noteq> CHR '']''" using assms by (auto simp: value_start_def)
  ultimately show ?thesis by (simp add: skip_ws_def is_json_ws_def)
qed

lemma parse_value_object:
  "parse_value (Suc m) (CHR ''{'' # CHR 0x22 # cs) = parse_members m (CHR 0x22 # cs) []"
  by (simp add: skip_ws_def is_json_ws_def)

lemma parse_elements_more:
  "parse_value m s = Inr (v, CHR '','' # rest)
   \<Longrightarrow> parse_elements (Suc m) s acc = parse_elements m rest (acc @ [v])"
  by (simp add: skip_ws_def is_json_ws_def)

lemma parse_elements_last:
  "parse_value m s = Inr (v, CHR '']'' # rest)
   \<Longrightarrow> parse_elements (Suc m) s acc = Inr (JArr (acc @ [v]), rest)"
  by (simp add: skip_ws_def is_json_ws_def)

lemma parse_members_key:
  "parse_members (Suc m) (quote k @ CHR '':'' # s) acc =
     (case parse_value m s of
        Inl err \<Rightarrow> Inl err
      | Inr (v, rest') \<Rightarrow>
          if take 1 (skip_ws rest') = '','' then
            parse_members m (drop 1 (skip_ws rest')) (obj_set acc k v)
          else if take 1 (skip_ws rest') = ''}'' then
            Inr (JObj (obj_set acc k v), drop 1 (skip_ws rest'))
          else Inl SyntaxError)"
proof -
  have q: "quote k @ CHR '':'' # s = CHR 0x22 # tl (quote k) @ CHR '':'' # s"
    by (simp add: quote_def)
  have ws: "skip_ws (CHR 0x22 # tl (quote k) @ CHR '':'' # s) = CHR 0x22 # tl (quote k) @ CHR '':'' # s"
    by (simp add: skip_ws_def is_json_ws_def)
  have c: "skip_ws (CHR '':'' # s) = CHR '':'' # s"
    by (simp add: skip_ws_def is_json_ws_def)
  show ?thesis
    unfolding q using ws c parse_string_quote [of k "CHR '':'' # s"] by simp
qed

lemma parse_members_more:
  "parse_value m s = Inr (v, CHR '','' # rest)
   \<Longrightarrow> parse_members (Suc m) (quote k @ CHR '':'' # s) acc = parse_members m rest (obj_set acc k v)"
  by (simp add: parse_members_key skip_ws_def is_json_ws_def del: parse_members.simps)

lemma parse_members_last:
  "parse_value m s = Inr (v, CHR ''}'' # rest)
   \<Longrightarrow> parse_members (Suc m) (quote k @ CHR '':'' # s) acc = Inr (JObj (obj_set acc k v), rest)"
  by (simp add: parse_members_key skip_ws_def is_json_ws_def del: parse_members.simps)

lemma obj_set_fresh: "k \<notin> fst ` set acc \<Longrightarrow> obj_set acc k v = acc @ [(k, v)]"
  by (induction acc) auto

lemma follow_ok_punct: "follow_ok (CHR '','' # r)" "follow_ok (CHR '']'' # r)" "follow_ok (CHR ''}'' # r)"
  by (simp_all add: follow_ok_def is_digit_def)

lemma roundtrip_all:
  "wf_json v \<Longrightarrow> length (JSON_stringify v) < n \<Longrightarrow> follow_ok r
     \<Longrightarrow> parse_value n (JSON_stringify v @ r) = Inr (v, r)"
  "xs \<noteq> [] \<Longrightarrow> wf_elements xs \<Longrightarrow> Suc (length (stringify_elements xs)) < n
     \<Longrightarrow> parse_elements n (stringify_elements xs @ CHR '']'' # r) acc = Inr (JArr (acc @ xs), r)"
  "fs \<noteq> [] \<Longrightarrow> wf_members fs \<Longrightarrow> distinct (map fst acc' @ map fst fs)
     \<Longrightarrow> Suc (length (stringify_members fs)) < n
     \<Longrightarrow> parse_members n (stringify_members fs @ CHR ''}'' # r) acc' = Inr (JObj (acc' @ fs), r)"
proof (induction v and xs and fs arbitrary: n r and n r acc and n r acc'
    rule: JSON_stringify_stringify_elements_stringify_members.induct)
  case 1
  then obtain m where "n = Suc m" by (cases n) auto
  then show ?case using parse_value_null by simp
next
  case (2 b)
  then obtain m where "n = Suc m" by (cases n) auto
  then show ?case using parse_value_true [of m r] parse_value_false [of m r] by simp
next
  case (3 i)
  then obtain m where "n = Suc m" by (cases n) auto
  then show ?case using parse_value_number [OF "3.prems"(3)] by simp
next
  case (4 s)
  then obtain m where "n = Suc m" by (cases n) auto
  then show ?case using parse_value_string by simp
next
  case (5 xs)
  then obtain m where n: "n = Suc m" by (cases n) auto
  show ?case
  proof (cases "xs = []")
    case True
    then show ?thesis using parse_value_empty_array [of m r] n by simp
  next
    case False
    obtain c cs where h: "stringify_elements xs = c # cs" "value_start c"
      using elements_first [OF False] by blast
    have "parse_elements m (stringify_elements xs @ CHR '']'' # r) [] = Inr (JArr ([] @ xs), r)"
      using "5.prems" n by (intro "5.IH" False) auto
    then show ?thesis
      using parse_value_array [OF h(2), of m "cs @ CHR '']'' # r"] h(1) n
      by (simp del: parse_value.simps parse_elements.simps)
  qed
next
  case (6 fs)
  then obtain m where n: "n = Suc m" by (cases n) auto
  show ?case
  proof (cases "fs = []")
    case True
    then show ?thesis using parse_value_empty_object [of m r] n by simp
  next
    case False
    obtain cs where h: "stringify_members fs = CHR 0x22 # cs"
      using members_first [OF False] by blast
    have "parse_members m (stringify_members fs @ CHR ''}'' # r) [] = Inr (JObj ([] @ fs), r)"
      using "6.prems" n by (intro "6.IH" False) auto
    then show ?thesis
      using parse_value_object [of m "cs @ CHR ''}'' # r"] h n
      by (simp del: parse_value.simps parse_members.simps)
  qed
next
  case 7
  then show ?case by simp
next
  case (8 x)
  then obtain m where n: "n = Suc m" by (cases n) auto
  have "parse_value m (JSON_stringify x @ CHR '']'' # r) = Inr (x, CHR '']'' # r)"
    using "8.prems" n by (intro "8.IH" follow_ok_punct) auto
  then show ?case using n
    by (simp add: parse_elements_last del: parse_elements.simps)
next
  case (9 x y ys)
  then obtain m where n: "n = Suc m" by (cases n) auto
  let ?rest = "stringify_elements (y # ys) @ CHR '']'' # r"
  have "parse_value m (JSON_stringify x @ CHR '','' # ?rest) = Inr (x, CHR '','' # ?rest)"
    using "9.prems" n by (intro "9.IH"(1) follow_ok_punct) auto
  moreover have "parse_elements m ?rest (acc @ [x]) = Inr (JArr ((acc @ [x]) @ y # ys), r)"
    using "9.prems" n by (intro "9.IH"(2)) auto
  ultimately show ?case using n
    by (simp add: parse_elements_more del: parse_elements.simps)
next
  case 10
  then show ?case by simp
next
  case (11 k v)
  then obtain m where n: "n = Suc m" by (cases n) auto
  have "parse_value m (JSON_stringify v @ CHR ''}'' # r) = Inr (v, CHR ''}'' # r)"
    using "11.prems" n by (intro "11.IH" follow_ok_punct) auto
  moreover have "obj_set acc' k v = acc' @ [(k, v)]"
    using "11.prems" by (intro obj_set_fresh) auto
  ultimately show ?case using n
    by (simp add: parse_members_last del: parse_members.simps)
next
  case (12 k v f fs)
  then obtain m where n: "n = Suc m" by (cases n) auto
  let ?rest = "stringify_members (f # fs) @ CHR ''}'' # r"
  have fresh: "obj_set acc' k v = acc' @ [(k, v)]"
    using "12.prems" by (intro obj_set_fresh) auto
  have "parse_value m (JSON_stringify v @ CHR '','' # ?rest) = Inr (v, CHR '','' # ?rest)"
    using "12.prems" n by (intro "12.IH"(1) follow_ok_punct) auto
  moreover have "parse_members m ?rest (acc' @ [(k, v)]) = Inr (JObj ((acc' @ [(k, v)]) @ f # fs), r)"
    using "12.prems" n by (intro "12.IH"(2)) auto
  ultimately show ?case using n fresh
    by (simp add: parse_members_more del: parse_members.simps)
qed

lemma JSON_roundtrip: "wf_json v \<Longrightarrow> JSON_parse (JSON_stringify v) = Inr v"
  using roundtrip_all(1) [of v "Suc (2 * length (JSON_stringify v))" "[]"]
  by (simp add: JSON_parse_def follow_ok_def skip_ws_def del: parse_value.simps)

lemma wf_elements_snoc: "wf_elements (acc @ [v]) = (wf_elements acc \<and> wf_json v)"
  by (induction acc) auto

lemma keys_obj_set:
  "map fst (obj_set fs k v) = (if k \<in> set (map fst fs) then map fst fs else map fst fs @ [k])"
  by (induction fs) (fastforce simp: image_iff)+

lemma distinct_obj_set: "distinct (map fst fs) \<Longrightarrow> distinct (map fst (obj_set fs k v))"
  by (simp add: keys_obj_set del: set_map)

lemma wf_members_obj_set: "wf_members fs \<Longrightarrow> wf_json v \<Longrightarrow> wf_members (obj_set fs k v)"
  by (induction fs) auto

lemma parse_number_wf: "parse_number s = Inr (v, r) \<Longrightarrow> wf_json v"
  by (auto simp: parse_number_def Let_def split: if_splits)

lemma parse_wf:
  "parse_value n s = Inr (v, r) \<Longrightarrow> wf_json v"
  "wf_elements acc \<Longrightarrow> parse_elements n s acc = Inr (v, r) \<Longrightarrow> wf_json v"
  "distinct (map fst acc') \<Longrightarrow> wf_members acc' \<Longrightarrow> parse_members n s acc' = Inr (v, r) \<Longrightarrow> wf_json v"
proof (induction n s and n s acc and n s acc' arbitrary: v r and v r and v r
    rule: parse_value_parse_elements_parse_members.induct)
  case (1 s)
  then show ?case by simp
next
  case (2 n s)
  obtain c cs where sk: "skip_ws s = c # cs"
    using "2.prems" by (cases "skip_ws s") auto
  show ?case
  proof (cases "c = CHR ''{''")
    case True
    show ?thesis
    proof (cases "take 1 (skip_ws cs) = ''}''")
      case e: True
      then show ?thesis using "2.prems" sk True by auto
    next
      case ne: False
      then have "parse_members n cs [] = Inr (v, r)" using "2.prems" sk True by simp
      then show ?thesis using "2.IH"(1) [OF sk True ne] by simp
    qed
  next
    case nb: False
    show ?thesis
    proof (cases "c = CHR ''[''")
      case True
      show ?thesis
      proof (cases "take 1 (skip_ws cs) = '']''")
        case e: True
        then show ?thesis using "2.prems" sk True nb by auto
      next
        case ne: False
        then have "parse_elements n cs [] = Inr (v, r)" using "2.prems" sk True nb by simp
        then show ?thesis using "2.IH"(2) [OF sk nb True ne] by simp
      qed
    next
      case na: False
      then show ?thesis using "2.prems" sk nb
        by (auto split: if_splits sum.splits dest: parse_number_wf)
    qed
  qed
next
  case (3 s acc)
  then show ?case by simp
next
  case (4 n s acc)
  obtain x rest where pv: "parse_value n s = Inr (x, rest)"
    using "4.prems" by (cases "parse_value n s") auto
  have wx: "wf_json x" using "4.IH"(1) [OF pv] .
  show ?case
  proof (cases "take 1 (skip_ws rest) = '',''")
    case True
    then have "parse_elements n (drop 1 (skip_ws rest)) (acc @ [x]) = Inr (v, r)"
      using "4.prems" pv by simp
    then show ?thesis
      using "4.IH"(2) [OF pv refl True] "4.prems"(1) wx by (simp add: wf_elements_snoc)
  next
    case False
    then show ?thesis using "4.prems" pv wx
      by (auto simp: wf_elements_snoc split: if_splits)
  qed
next
  case (5 s acc')
  then show ?case by simp
next
  case (6 n s acc')
  have q: "take 1 (skip_ws s) = [CHR 0x22]"
    using "6.prems" by (auto split: if_splits)
  obtain k rest where ps: "parse_string (drop 1 (skip_ws s)) = Inr (k, rest)"
    using "6.prems" q by (cases "parse_string (drop 1 (skip_ws s))") auto
  have c: "take 1 (skip_ws rest) = '':''"
    using "6.prems" q ps by (auto split: if_splits)
  obtain x rest' where pv: "parse_value n (drop 1 (skip_ws rest)) = Inr (x, rest')"
    using "6.prems" q ps c by (cases "parse_value n (drop 1 (skip_ws rest))") auto
  have wx: "wf_json x" using "6.IH"(1) [OF q ps refl c pv] .
  have d: "distinct (map fst (obj_set acc' k x))" "wf_members (obj_set acc' k x)"
    using "6.prems" wx by (simp_all add: distinct_obj_set wf_members_obj_set)
  show ?case
  proof (cases "take 1 (skip_ws rest') = '',''")
    case True
    then have "parse_members n (drop 1 (skip_ws rest')) (obj_set acc' k x) = Inr (v, r)"
      using "6.prems" q ps c pv by simp
    then show ?thesis
      using "6.IH"(2) [OF q ps refl c pv refl True] d by simp
  next
    case False
    then show ?thesis using "6.prems" q ps c pv d
      by (auto split: if_splits)
  qed
qed

lemma JSON_parse_wf: "JSON_parse s = Inr v \<Longrightarrow> wf_json v"
  by (auto simp: JSON_parse_def simp del: parse_value.simps split: sum.splits if_splits
      dest: parse_wf(1))

subsection \<open>The parser consumes input and its bound is never reached\<close>

lemma skip_ws_length: "length (skip_ws s) \<le> length s"
  by (simp add: skip_ws_def length_dropWhile_le)

lemma skip_ws_Cons_length: "skip_ws s = c # cs \<Longrightarrow> length cs < length s"
  using skip_ws_length [of s] by simp

lemma drop1_skip_ws_length: "take 1 (skip_ws s) = [c] \<Longrightarrow> length (drop 1 (skip_ws s)) < length s"
  using skip_ws_length [of s] by (cases "skip_ws s") auto

lemma parse_string_length: "parse_string s = Inr (x, r) \<Longrightarrow> length r < length s"
proof (induction s arbitrary: x r rule: parse_string.induct)
  case 1
  then show ?case by simp
next
  case (2 c cs)
  show ?case
  proof (cases "c = CHR 0x22")
    case True
    then show ?thesis using "2.prems" by simp
  next
    case nq: False
    show ?thesis
    proof (cases "c = CHR 0x5C")
      case True
      then obtain e t where cs: "cs = e # t"
        using "2.prems" nq by (cases cs) auto
      show ?thesis
      proof (cases "e = CHR ''u''")
        case u: True
        then obtain n where h: "hex4 (take 4 t) = Some n" "n < 256"
          using "2.prems" nq True cs by (auto split: option.splits if_splits)
        then obtain y where p: "parse_string (drop 4 t) = Inr (y, r)"
          using "2.prems" nq True cs u by (auto split: sum.splits)
        have "length r < length (drop 4 t)"
          using "2.IH"(1) [OF nq True cs u h(1) h(2) p] .
        then show ?thesis using cs by simp
      next
        case nu: False
        then obtain ch where h: "unescape e = Some ch"
          using "2.prems" nq True cs by (auto split: option.splits)
        then obtain y where p: "parse_string t = Inr (y, r)"
          using "2.prems" nq True cs nu by (auto split: sum.splits)
        have "length r < length t"
          using "2.IH"(2) [OF nq True cs nu h p] .
        then show ?thesis using cs by simp
      qed
    next
      case nb: False
      then have nc: "\<not> (of_char c :: nat) < 32"
        using "2.prems" nq by (auto split: if_splits)
      then obtain y where p: "parse_string cs = Inr (y, r)"
        using "2.prems" nq nb by (auto split: sum.splits)
      have "length r < length cs"
        using "2.IH"(3) [OF nq nb nc p] .
      then show ?thesis by simp
    qed
  qed
qed

lemma parse_number_length: "parse_number s = Inr (v, r) \<Longrightarrow> length r < length s"
proof -
  assume a: "parse_number s = Inr (v, r)"
  define s' where "s' = (if take 1 s = ''-'' then drop 1 s else s)"
  define ds where "ds = (if take 1 s' = ''0'' then ''0'' else takeWhile is_digit s')"
  have r: "r = drop (length ds) s'" and ne: "ds \<noteq> []"
    using a by (auto simp: parse_number_def Let_def s'_def ds_def split: if_splits)
  have "length ds \<le> length s'"
    by (cases s') (auto simp: ds_def length_takeWhile_le)
  moreover have "0 < length ds" using ne by simp
  moreover have "length s' \<le> length s" by (simp add: s'_def)
  moreover have "length r = length s' - length ds" using r by simp
  ultimately show ?thesis by linarith
qed

lemma parse_length:
  "parse_value n s = Inr (v, r) \<Longrightarrow> length r < length s"
  "parse_elements n s acc = Inr (v, r) \<Longrightarrow> length r < length s"
  "parse_members n s acc' = Inr (v, r) \<Longrightarrow> length r < length s"
proof (induction n s and n s acc and n s acc' arbitrary: v r and v r and v r
    rule: parse_value_parse_elements_parse_members.induct)
  case (1 s)
  then show ?case by simp
next
  case (2 n s)
  obtain c cs where sk: "skip_ws s = c # cs"
    using "2.prems" by (cases "skip_ws s") auto
  note l = skip_ws_Cons_length [OF sk]
  have l2: "length (drop 1 (skip_ws cs)) < length s"
    using skip_ws_length [of cs] l by simp
  show ?case
  proof (cases "c = CHR ''{''")
    case True
    show ?thesis
    proof (cases "take 1 (skip_ws cs) = ''}''")
      case e: True
      then show ?thesis using "2.prems" sk True l2 by auto
    next
      case ne: False
      then have "parse_members n cs [] = Inr (v, r)" using "2.prems" sk True by simp
      then show ?thesis using "2.IH"(1) [OF sk True ne] l by fastforce
    qed
  next
    case nb: False
    show ?thesis
    proof (cases "c = CHR ''[''")
      case True
      show ?thesis
      proof (cases "take 1 (skip_ws cs) = '']''")
        case e: True
        then show ?thesis using "2.prems" sk True nb l2 by auto
      next
        case ne: False
        then have "parse_elements n cs [] = Inr (v, r)" using "2.prems" sk True nb by simp
        then show ?thesis using "2.IH"(2) [OF sk nb True ne] l by fastforce
      qed
    next
      case na: False
      show ?thesis
      proof (cases "c = CHR 0x22")
        case True
        then obtain str where "parse_string cs = Inr (str, r)"
          using "2.prems" sk nb na by (auto split: sum.splits)
        then show ?thesis using parse_string_length [of cs str r] l by simp
      next
        case ns: False
        show ?thesis
        proof (cases "c = CHR ''-'' \<or> is_digit c")
          case True
          then have "parse_number (c # cs) = Inr (v, r)"
            using "2.prems" sk nb na ns by simp
          then show ?thesis using parse_number_length [of "c # cs" v r] l by simp
        next
          case False
          then have "length r < length (c # cs)"
            using "2.prems" sk nb na ns by (auto split: if_splits)
          then show ?thesis using l by simp
        qed
      qed
    qed
  qed
next
  case (3 s acc)
  then show ?case by simp
next
  case (4 n s acc)
  obtain x rest where pv: "parse_value n s = Inr (x, rest)"
    using "4.prems" by (cases "parse_value n s") auto
  have lx: "length rest < length s" using "4.IH"(1) [OF pv] .
  have ld: "length (drop 1 (skip_ws rest)) < length s"
    using skip_ws_length [of rest] lx by simp
  show ?case
  proof (cases "take 1 (skip_ws rest) = '',''")
    case True
    then have "parse_elements n (drop 1 (skip_ws rest)) (acc @ [x]) = Inr (v, r)"
      using "4.prems" pv by simp
    then show ?thesis
      using "4.IH"(2) [OF pv refl True] ld by fastforce
  next
    case False
    then show ?thesis using "4.prems" pv ld
      by (auto split: if_splits)
  qed
next
  case (5 s acc')
  then show ?case by simp
next
  case (6 n s acc')
  have q: "take 1 (skip_ws s) = [CHR 0x22]"
    using "6.prems" by (auto split: if_splits)
  obtain k rest where ps: "parse_string (drop 1 (skip_ws s)) = Inr (k, rest)"
    using "6.prems" q by (cases "parse_string (drop 1 (skip_ws s))") auto
  have c: "take 1 (skip_ws rest) = '':''"
    using "6.prems" q ps by (auto split: if_splits)
  obtain x rest' where pv: "parse_value n (drop 1 (skip_ws rest)) = Inr (x, rest')"
    using "6.prems" q ps c by (cases "parse_value n (drop 1 (skip_ws rest))") auto
  have l1: "length rest < length s"
    using parse_string_length [OF ps] drop1_skip_ws_length [OF q] by simp
  have l2: "length rest' < length s"
    using "6.IH"(1) [OF q ps refl c pv] drop1_skip_ws_length [OF c] l1 by simp
  have ld: "length (drop 1 (skip_ws rest')) < length s"
    using skip_ws_length [of rest'] l2 by simp
  show ?case
  proof (cases "take 1 (skip_ws rest') = '',''")
    case True
    then have "parse_members n (drop 1 (skip_ws rest')) (obj_set acc' k x) = Inr (v, r)"
      using "6.prems" q ps c pv by simp
    then show ?thesis
      using "6.IH"(2) [OF q ps refl c pv refl True] ld by fastforce
  next
    case False
    then show ?thesis using "6.prems" q ps c pv ld
      by (auto split: if_splits)
  qed
qed

lemma parse_string_fuel: "parse_string s \<noteq> Inl OutOfFuel"
proof (induction s rule: parse_string.induct)
  case 1
  show ?case by simp
next
  case (2 c cs)
  show ?case
  proof (cases "c = CHR 0x22")
    case True
    then show ?thesis by simp
  next
    case nq: False
    show ?thesis
    proof (cases "c = CHR 0x5C")
      case True
      show ?thesis
      proof (cases cs)
        case Nil
        then show ?thesis using nq True by simp
      next
        case (Cons e t)
        show ?thesis
        proof (cases "e = CHR ''u''")
          case u: True
          show ?thesis
          proof (cases "hex4 (take 4 t)")
            case None
            then show ?thesis using nq True Cons u by simp
          next
            case (Some n)
            show ?thesis
            proof (cases "n < 256")
              case l: True
              then show ?thesis
                using "2.IH"(1) [OF nq True Cons u Some l] nq True Cons u Some
                by (auto split: sum.splits)
            next
              case False
              then show ?thesis using nq True Cons u Some by simp
            qed
          qed
        next
          case nu: False
          show ?thesis
          proof (cases "unescape e")
            case None
            then show ?thesis using nq True Cons nu by simp
          next
            case (Some ch)
            then show ?thesis
              using "2.IH"(2) [OF nq True Cons nu Some] nq True Cons nu
              by (auto split: sum.splits)
          qed
        qed
      qed
    next
      case nb: False
      show ?thesis
      proof (cases "(of_char c :: nat) < 32")
        case True
        then show ?thesis using nq nb by simp
      next
        case False
        then show ?thesis using "2.IH"(3) [OF nq nb False] nq nb
          by (auto split: sum.splits)
      qed
    qed
  qed
qed

lemma parse_number_fuel: "parse_number s \<noteq> Inl OutOfFuel"
  by (simp add: parse_number_def Let_def)

lemma parse_fuel:
  "2 * length s < n \<Longrightarrow> parse_value n s \<noteq> Inl OutOfFuel"
  "2 * length s + 1 < n \<Longrightarrow> parse_elements n s acc \<noteq> Inl OutOfFuel"
  "2 * length s + 1 < n \<Longrightarrow> parse_members n s acc' \<noteq> Inl OutOfFuel"
proof (induction n s and n s acc and n s acc'
    rule: parse_value_parse_elements_parse_members.induct)
  case (1 s)
  then show ?case by simp
next
  case (2 n s)
  show ?case
  proof (cases "skip_ws s")
    case Nil
    then show ?thesis by simp
  next
    case (Cons c cs)
    have l: "2 * length cs + 1 < n"
      using skip_ws_Cons_length [OF Cons] "2.prems" by simp
    show ?thesis
    proof (cases "c = CHR ''{''")
      case True
      then show ?thesis using "2.IH"(1) [OF Cons True _ l] Cons by simp
    next
      case nb: False
      show ?thesis
      proof (cases "c = CHR ''[''")
        case True
        then show ?thesis using "2.IH"(2) [OF Cons nb True _ l] Cons nb by simp
      next
        case na: False
        then show ?thesis using Cons nb parse_string_fuel [of cs] parse_number_fuel [of "c # cs"]
          by (auto split: sum.splits)
      qed
    qed
  qed
next
  case (3 s acc)
  then show ?case by simp
next
  case (4 n s acc)
  have f: "parse_value n s \<noteq> Inl OutOfFuel"
    using "4.prems" by (intro "4.IH"(1)) simp
  show ?case
  proof (cases "parse_value n s")
    case (Inl err)
    then show ?thesis using f by simp
  next
    case (Inr p)
    obtain x rest where p: "p = (x, rest)" by (cases p)
    have pv: "parse_value n s = Inr (x, rest)" using Inr p by simp
    have lx: "length rest < length s" using parse_length(1) [OF pv] .
    show ?thesis
    proof (cases "take 1 (skip_ws rest) = '',''")
      case True
      have "length (drop 1 (skip_ws rest)) < length rest"
        using drop1_skip_ws_length [OF True] .
      then have "2 * length (drop 1 (skip_ws rest)) + 1 < n"
        using lx "4.prems" by simp
      then show ?thesis using "4.IH"(2) [OF pv refl True] pv True by simp
    next
      case False
      then show ?thesis using pv by simp
    qed
  qed
next
  case (5 s acc')
  then show ?case by simp
next
  case (6 n s acc')
  show ?case
  proof (cases "take 1 (skip_ws s) = [CHR 0x22]")
    case False
    then show ?thesis by simp
  next
    case q: True
    show ?thesis
    proof (cases "parse_string (drop 1 (skip_ws s))")
      case (Inl err)
      then show ?thesis using q parse_string_fuel [of "drop 1 (skip_ws s)"] by simp
    next
      case (Inr p)
      obtain k rest where p: "p = (k, rest)" by (cases p)
      have ps: "parse_string (drop 1 (skip_ws s)) = Inr (k, rest)" using Inr p by simp
      have l1: "length rest < length s"
        using parse_string_length [OF ps] drop1_skip_ws_length [OF q] by simp
      show ?thesis
      proof (cases "take 1 (skip_ws rest) = '':''")
        case False
        then show ?thesis using q ps by simp
      next
        case c: True
        have l2: "length (drop 1 (skip_ws rest)) < length s"
          using drop1_skip_ws_length [OF c] l1 by simp
        then have "2 * length (drop 1 (skip_ws rest)) < n"
          using "6.prems" by simp
        then have f: "parse_value n (drop 1 (skip_ws rest)) \<noteq> Inl OutOfFuel"
          by (rule "6.IH"(1) [OF q ps refl c])
        show ?thesis
        proof (cases "parse_value n (drop 1 (skip_ws rest))")
          case (Inl err)
          then show ?thesis using f q ps c by simp
        next
          case (Inr p')
          obtain x rest' where p': "p' = (x, rest')" by (cases p')
          have pv: "parse_value n (drop 1 (skip_ws rest)) = Inr (x, rest')" using Inr p' by simp
          have l3: "length rest' < length s"
            using parse_length(1) [OF pv] l2 by simp
          show ?thesis
          proof (cases "take 1 (skip_ws rest') = '',''")
            case True
            have "length (drop 1 (skip_ws rest')) < length rest'"
              using drop1_skip_ws_length [OF True] .
            then have "2 * length (drop 1 (skip_ws rest')) + 1 < n"
              using l3 "6.prems" by simp
            then show ?thesis
              using "6.IH"(2) [OF q ps refl c pv refl True] q ps c pv True by simp
          next
            case False
            then show ?thesis using q ps c pv by simp
          qed
        qed
      qed
    qed
  qed
qed

lemma JSON_parse_fuel: "JSON_parse s \<noteq> Inl OutOfFuel"
  using parse_fuel(1) [of s "Suc (2 * length s)"]
  by (auto simp: JSON_parse_def simp del: parse_value.simps split: sum.splits)

subsection \<open>Identifier generator\<close>

text \<open>
  C9 (as amended).  For every timestamp and every radix-36 numeral of a number
  in \<open>[0, 1)\<close>, \<open>generateId\<close> returns \<open>client_\<close>, the decimal timestamp, an
  underscore and a suffix of base-36 characters.  The suffix has the first nine
  fractional digits of the numeral when there are that many, and all of them
  otherwise: its length is the smaller of nine and the number of fractional
  digits, so at most nine and not always nine.
\<close>

theorem generateId_form:
  assumes "is_random36 r"
  shows "generateId now r = ''client_'' @ show_nat now @ ''_'' @ substr r 2 9
       \<and> show_nat now \<noteq> [] \<and> list_all is_digit (show_nat now)
       \<and> list_all is_base36 (substr r 2 9)
       \<and> length (substr r 2 9) = min 9 (length r - 2)"
proof -
  have "list_all is_base36 (drop 2 r)"
    using assms by (auto simp: is_random36_def)
  then have "list_all is_base36 (take 9 (drop 2 r))"
    by (auto simp: list_all_iff dest: in_set_takeD)
  then show ?thesis
    by (simp add: generateId_def substr_def show_nat_digits show_nat_nonempty min.commute)
qed

theorem generateId_form_witness:
  "is_random36 ''0.4fzyo82mvyr''
   \<and> generateId 1700000000000 ''0.4fzyo82mvyr'' = ''client_1700000000000_4fzyo82mv''
   \<and> length (substr ''0.4fzyo82mvyr'' 2 9) = 9"
proof -
  have h: "is_random36 ''0.4fzyo82mvyr''"
    by (simp add: is_random36_def is_base36_def)
  have n: "show_nat 1700000000000 = ''1700000000000''"
    by (simp add: show_nat.simps digit_char_def)
  show ?thesis
    using h generateId_form [OF h, of 1700000000000] by (simp add: n substr_def)
qed

text \<open>
  The claim as the specification words it fails when the random number has a
  short radix-36 numeral: for \<open>Math.random() = 0.5\<close> the suffix is the single
  character \<open>i\<close>.
\<close>

theorem generateId_suffix_counterexample:
  "is_random36 ''0.i''
   \<and> generateId 1700000000000 ''0.i'' = ''client_1700000000000_i''
   \<and> \<not> spec_id_form (generateId 1700000000000 ''0.i'')"
proof -
  have n: "show_nat 1700000000000 = ''1700000000000''"
    by (simp add: show_nat.simps digit_char_def)
  have g: "generateId 1700000000000 ''0.i'' = ''client_1700000000000_i''"
    by (simp add: generateId_def n substr_def)
  have "\<not> spec_id_form ''client_1700000000000_i''"
    by (simp add: spec_id_form_def)
  then show ?thesis
    using g by (simp add: is_random36_def is_base36_def)
qed

subsection \<open>Form validation\<close>

lemma map_of_obj_set: "map_of (obj_set fs k v) = (map_of fs)(k \<mapsto> v)"
  by (induction fs) (auto simp: fun_eq_iff)

text \<open>Each block on the two example forms.\<close>

lemma valid_fullName: "check_fullName valid_example es = es"
  by code_simp
lemma valid_age: "check_age valid_example es = es"
  by code_simp
lemma valid_gender: "check_gender valid_example es = es"
  by code_simp
lemma valid_email: "check_email valid_example es = es"
  by code_simp
lemma valid_phone: "check_phone valid_example es = es"
  by code_simp
lemma valid_goal: "check_goal valid_example es = es"
  by code_simp
lemma valid_startDate: "check_startDate valid_example es = es"
  by code_simp

lemma validate_valid_example: "validateClientForm valid_example = \<lparr> isValid = True, errors = [] \<rparr>"
  by (simp add: validateClientForm_def valid_fullName valid_age valid_gender valid_email valid_phone valid_goal valid_startDate)

lemma invalid_fullName: "check_fullName invalid_example es = obj_set es ''fullName'' ''Name must be at least 2 characters''"
  by code_simp
lemma invalid_age: "check_age invalid_example es = obj_set es ''age'' ''Age must be between 1 and 120''"
  by code_simp
lemma invalid_gender: "check_gender invalid_example es = obj_set es ''gender'' ''Please select a gender''"
  by code_simp
lemma invalid_email: "check_email invalid_example es = obj_set es ''email'' ''Please enter a valid email address''"
  by code_simp
lemma invalid_phone: "check_phone invalid_example es = obj_set es ''phone'' ''Please enter a valid phone number''"
  by code_simp
lemma invalid_goal: "check_goal invalid_example es = obj_set es ''goal'' ''Please select a fitness goal''"
  by code_simp
lemma invalid_startDate: "check_startDate invalid_example es = obj_set es ''startDate'' ''Membership start date is required''"
  by code_simp

lemma validate_invalid_example: "validateClientForm invalid_example =
   \<lparr> isValid = False,
     errors = [(''fullName'', ''Name must be at least 2 characters''),
               (''age'', ''Age must be between 1 and 120''),
               (''gender'', ''Please select a gender''),
               (''email'', ''Please enter a valid email address''),
               (''phone'', ''Please enter a valid phone number''),
               (''goal'', ''Please select a fitness goal''),
               (''startDate'', ''Membership start date is required'')] \<rparr>"
  by (simp add: validateClientForm_def invalid_fullName invalid_age invalid_gender invalid_email invalid_phone invalid_goal invalid_startDate)

text \<open>
  What a block does to the entry of the error map under a name depends on the
  form only through the value \<open>FormData.get\<close> gives for that name.
\<close>

lemma check_fullName_local:
  "FormData_get form k = FormData_get form' k \<Longrightarrow> map_of es k = map_of es' k
   \<Longrightarrow> map_of (check_fullName form es) k = map_of (check_fullName form' es') k"
  by (cases "k = ''fullName''")
     (simp_all add: check_fullName_def Let_def map_of_obj_set split: option.splits)

lemma check_age_local:
  "FormData_get form k = FormData_get form' k \<Longrightarrow> map_of es k = map_of es' k
   \<Longrightarrow> map_of (check_age form es) k = map_of (check_age form' es') k"
  by (cases "k = ''age''")
     (simp_all add: check_age_def Let_def map_of_obj_set split: option.splits)

lemma check_gender_local:
  "FormData_get form k = FormData_get form' k \<Longrightarrow> map_of es k = map_of es' k
   \<Longrightarrow> map_of (check_gender form es) k = map_of (check_gender form' es') k"
  by (cases "k = ''gender''")
     (simp_all add: check_gender_def Let_def map_of_obj_set split: option.splits)

lemma check_email_local:
  "FormData_get form k = FormData_get form' k \<Longrightarrow> map_of es k = map_of es' k
   \<Longrightarrow> map_of (check_email form es) k = map_of (check_email form' es') k"
  by (cases "k = ''email''")
     (simp_all add: check_email_def Let_def map_of_obj_set split: option.splits)

lemma check_phone_local:
  "FormData_get form k = FormData_get form' k \<Longrightarrow> map_of es k = map_of es' k
   \<Longrightarrow> map_of (check_phone form es) k = map_of (check_phone form' es') k"
  by (cases "k = ''phone''")
     (simp_all add: check_phone_def Let_def map_of_obj_set split: option.splits)

lemma check_goal_local:
  "FormData_get form k = FormData_get form' k \<Longrightarrow> map_of es k = map_of es' k
   \<Longrightarrow> map_of (check_goal form es) k = map_of (check_goal form' es') k"
  by (cases "k = ''goal''")
     (simp_all add: check_goal_def Let_def map_of_obj_set split: option.splits)

lemma check_startDate_local:
  "FormData_get form k = FormData_get form' k \<Longrightarrow> map_of es k = map_of es' k
   \<Longrightarrow> map_of (check_startDate form es) k = map_of (check_startDate form' es') k"
  by (cases "k = ''startDate''")
     (simp_all add: check_startDate_def Let_def map_of_obj_set split: option.splits)

lemma validate_local:
  assumes g: "FormData_get form k = FormData_get form' k"
  shows "map_of (errors (validateClientForm form)) k = map_of (errors (validateClientForm form')) k"
proof -
  have "map_of ([] :: error_map) k = map_of ([] :: error_map) k" by simp
  note check_fullName_local [OF g this]
  note check_age_local [OF g this]
  note check_gender_local [OF g this]
  note check_email_local [OF g this]
  note check_phone_local [OF g this]
  note check_goal_local [OF g this]
  note check_startDate_local [OF g this]
  then show ?thesis by (simp add: validateClientForm_def Let_def)
qed

text \<open>
  C7.  The first example form is valid with an empty error map; the second is
  invalid, and its error map has a message for each of fullName, age, gender,
  email, phone, goal and startDate.  The rules are independent: the message
  under a field name is the same for any two forms that give that field the
  same value.  The validator is a function of the form that returns the record
  of flag and error map and nothing else, so it changes no state.
\<close>

theorem validateClientForm_examples:
  "validateClientForm valid_example = \<lparr> isValid = True, errors = [] \<rparr>
   \<and> validateClientForm invalid_example =
       \<lparr> isValid = False,
         errors = [(''fullName'', ''Name must be at least 2 characters''),
                   (''age'', ''Age must be between 1 and 120''),
                   (''gender'', ''Please select a gender''),
                   (''email'', ''Please enter a valid email address''),
                   (''phone'', ''Please enter a valid phone number''),
                   (''goal'', ''Please select a fitness goal''),
                   (''startDate'', ''Membership start date is required'')] \<rparr>
   \<and> (\<forall>form form' k. FormData_get form k = FormData_get form' k \<longrightarrow>
         map_of (errors (validateClientForm form)) k = map_of (errors (validateClientForm form')) k)"
  using validate_valid_example validate_invalid_example validate_local by blast

theorem validateClientForm_examples_witness:
  "FormData_get valid_example ''age'' = FormData_get [(''age'', ''30'')] ''age''
   \<and> map_of (errors (validateClientForm valid_example)) ''age''
       = map_of (errors (validateClientForm [(''age'', ''30'')])) ''age''"
proof -
  have g: "FormData_get valid_example ''age'' = FormData_get [(''age'', ''30'')] ''age''"
    by (simp add: FormData_get_def valid_example_def)
  from validateClientForm_examples
  have "\<forall>form form' k. FormData_get form k = FormData_get form' k \<longrightarrow>
         map_of (errors (validateClientForm form)) k = map_of (errors (validateClientForm form')) k"
    by blast
  with g show ?thesis by blast
qed

subsection \<open>Storage and repository\<close>

lemma stringify_array_nonempty: "JSON_stringify (JArr cs) \<noteq> []"
  by simp

lemma getClients_saveClients:
  "wf_elements cs \<Longrightarrow> getClients (saveClients (JArr cs) ls) = Inr (JArr cs)"
  using JSON_roundtrip [of "JArr cs"] stringify_array_nonempty [of cs]
  by (simp add: getClients_def saveClients_def del: JSON_stringify.simps)

lemma getClients_wf: "getClients ls = Inr v \<Longrightarrow> wf_json v"
  by (auto simp: getClients_def split: option.splits if_splits dest: JSON_parse_wf)

lemma holds_clients_wf: "holds_clients ls cs \<Longrightarrow> wf_elements cs"
  using getClients_wf [of ls "JArr cs"] by (simp add: holds_clients_def)

lemma holds_clients_save:
  "wf_elements cs \<Longrightarrow> JNull \<notin> set cs \<Longrightarrow> holds_clients (saveClients (JArr cs) ls) cs"
  by (simp add: holds_clients_def getClients_saveClients)

lemma wf_elements_iff: "wf_elements cs = (\<forall>c \<in> set cs. wf_json c)"
  by (induction cs) auto

lemma wf_members_iff: "wf_members fs = (\<forall>p \<in> set fs. wf_json (snd p))"
  by (induction fs) auto

lemma id_equals_Inr: "c \<noteq> JNull \<Longrightarrow> id_equals ident c = Inr (has_id ident c)"
  by (cases c) (auto simp: id_equals_def has_id_def get_prop_def)

lemma id_differs_Inr: "c \<noteq> JNull \<Longrightarrow> id_differs ident c = Inr (\<not> has_id ident c)"
  by (cases c) (auto simp: id_differs_def has_id_def get_prop_def)

lemma has_id_object:
  "has_id ident c = (\<exists>fs. c = JObj fs \<and> map_of fs ''id'' = Some (JStr ident))"
  by (cases c) (auto simp: has_id_def get_prop_def)

lemma js_filter_ids:
  "JNull \<notin> set cs \<Longrightarrow> js_filter (id_differs ident) cs = Inr (filter (\<lambda>c. \<not> has_id ident c) cs)"
  by (induction cs) (auto simp: id_differs_Inr)

lemma js_find_ids:
  "JNull \<notin> set cs \<Longrightarrow> js_find (id_equals ident) cs = Inr (find (has_id ident) cs)"
  by (induction cs) (auto simp: id_equals_Inr)

lemma js_findIndex_none:
  "JNull \<notin> set cs \<Longrightarrow> \<forall>c \<in> set cs. \<not> has_id ident c
   \<Longrightarrow> js_findIndex (id_equals ident) cs = Inr None"
  by (induction cs) (auto simp: id_equals_Inr)

lemma js_findIndex_some:
  "JNull \<notin> set cs \<Longrightarrow> \<exists>c \<in> set cs. has_id ident c
   \<Longrightarrow> \<exists>i. js_findIndex (id_equals ident) cs = Inr (Some i) \<and> i < length cs
          \<and> has_id ident (cs ! i) \<and> (\<forall>j < i. \<not> has_id ident (cs ! j))"
proof (induction cs)
  case Nil
  then show ?case by simp
next
  case (Cons c cs)
  show ?case
  proof (cases "has_id ident c")
    case True
    moreover have "c \<noteq> JNull" using Cons.prems by auto
    ultimately show ?thesis by (simp add: id_equals_Inr)
  next
    case False
    have nn: "c \<noteq> JNull" using Cons.prems by auto
    from False obtain i where i: "js_findIndex (id_equals ident) cs = Inr (Some i)" "i < length cs"
      "has_id ident (cs ! i)" "\<forall>j < i. \<not> has_id ident (cs ! j)"
      using Cons by auto
    have "\<forall>j < Suc i. \<not> has_id ident ((c # cs) ! j)"
      using False i(4) by (auto simp: less_Suc_eq_0_disj)
    then show ?thesis using False i nn by (simp add: id_equals_Inr)
  qed
qed

lemma spread_append:
  "distinct (map fst target @ map fst source) \<Longrightarrow> spread target source = target @ source"
proof (induction source arbitrary: target)
  case Nil
  show ?case by (simp add: spread_def)
next
  case (Cons p source)
  obtain k v where p: "p = (k, v)" by (cases p)
  have f: "obj_set target k v = target @ [(k, v)]"
    using Cons.prems p by (intro obj_set_fresh) auto
  have "spread (target @ [(k, v)]) source = (target @ [(k, v)]) @ source"
    using Cons.prems p by (intro Cons.IH) auto
  then show ?case using p f by (simp add: spread_def)
qed

lemma map_of_spread:
  "distinct (map fst source) \<Longrightarrow> map_of (spread target source) = map_of target ++ map_of source"
proof (induction source arbitrary: target)
  case Nil
  show ?case by (simp add: spread_def)
next
  case (Cons p source)
  obtain k v where p: "p = (k, v)" by (cases p)
  have d: "distinct (map fst source)" and n: "map_of source k = None"
    using Cons.prems p by (auto simp: map_of_eq_None_iff)
  have "map_of (spread target (p # source)) = map_of (spread (obj_set target k v) source)"
    using p by (simp add: spread_def)
  also have "\<dots> = map_of (obj_set target k v) ++ map_of source"
    by (rule Cons.IH [OF d])
  also have "\<dots> = (map_of target)(k \<mapsto> v) ++ map_of source"
    by (simp only: map_of_obj_set)
  also have "\<dots> = map_of target ++ map_of (p # source)"
    using n p by (auto simp: fun_eq_iff map_add_def split: option.splits)
  finally show ?case .
qed

lemma distinct_spread: "distinct (map fst target) \<Longrightarrow> distinct (map fst (spread target source))"
proof (induction source arbitrary: target)
  case Nil
  then show ?case by (simp add: spread_def)
next
  case (Cons p source)
  obtain k v where p: "p = (k, v)" by (cases p)
  have "distinct (map fst (spread (obj_set target k v) source))"
    using Cons.prems by (intro Cons.IH distinct_obj_set)
  then show ?case using p by (simp add: spread_def)
qed

lemma wf_members_spread:
  "wf_members target \<Longrightarrow> wf_members source \<Longrightarrow> wf_members (spread target source)"
proof (induction source arbitrary: target)
  case Nil
  then show ?case by (simp add: spread_def)
next
  case (Cons p source)
  obtain k v where p: "p = (k, v)" by (cases p)
  have "wf_members (spread (obj_set target k v) source)"
    using Cons.prems p by (intro Cons.IH wf_members_obj_set) auto
  then show ?case using p by (simp add: spread_def)
qed

lemma keys_spread:
  "set (map fst (spread target source)) = set (map fst target) \<union> set (map fst source)"
proof (induction source arbitrary: target)
  case Nil
  show ?case by (simp add: spread_def)
next
  case (Cons p source)
  obtain k v where p: "p = (k, v)" by (cases p)
  have "set (map fst (spread (obj_set target k v) source))
          = set (map fst (obj_set target k v)) \<union> set (map fst source)"
    by (rule Cons.IH)
  then show ?case using p by (auto simp: spread_def keys_obj_set simp del: set_map)
qed

text \<open>
  C1 (as amended).  \<open>getClients\<close> returns the empty sequence when the stored
  value is absent or is the empty string, and returns the saved collection
  after a save.  For any other stored text it returns what \<open>JSON.parse\<close>
  returns and raises what \<open>JSON.parse\<close> raises: malformed JSON is not
  recovered.
\<close>

theorem getClients_load:
  "(ls STORAGE_KEY = None \<longrightarrow> getClients ls = Inr (JArr []))
   \<and> (ls STORAGE_KEY = Some [] \<longrightarrow> getClients ls = Inr (JArr []))
   \<and> (wf_elements cs \<longrightarrow> getClients (saveClients (JArr cs) ls) = Inr (JArr cs))
   \<and> (ls STORAGE_KEY = Some text \<and> text \<noteq> [] \<longrightarrow> getClients ls = JSON_parse text)"
  by (simp add: getClients_saveClients) (simp add: getClients_def)

theorem getClients_load_witness:
  "getClients Map.empty = Inr (JArr [])
   \<and> getClients [STORAGE_KEY \<mapsto> []] = Inr (JArr [])
   \<and> wf_elements [JObj [(''id'', JStr ''client_1_a'')]]
   \<and> getClients (saveClients (JArr [JObj [(''id'', JStr ''client_1_a'')]]) Map.empty)
       = Inr (JArr [JObj [(''id'', JStr ''client_1_a'')]])
   \<and> getClients [STORAGE_KEY \<mapsto> ''[{''] = JSON_parse ''[{''"
  using getClients_load [of Map.empty "[JObj [(''id'', JStr ''client_1_a'')]]" "[]"]
    getClients_load [of "[STORAGE_KEY \<mapsto> []]" "[]" "[]"]
    getClients_load [of "[STORAGE_KEY \<mapsto> ''[{'']" "[]" "''[{''"]
  by simp

text \<open>
  The claim as the specification words it fails on a malformed stored value:
  with the truncated text \<open>[{\<close> in the slot, \<open>getClients\<close> raises
  \<open>SyntaxError\<close> instead of returning the empty sequence.
\<close>

lemma parse_truncated: "JSON_parse ''[{'' = Inl SyntaxError"
  by code_simp

theorem getClients_malformed_counterexample:
  "getClients [STORAGE_KEY \<mapsto> ''[{''] = Inl SyntaxError"
  by (simp add: getClients_def parse_truncated)

lemma getClientById_holds:
  "holds_clients ls cs \<Longrightarrow>
     getClientById ident ls = Inr (case find (has_id ident) cs of None \<Rightarrow> JNull | Some c \<Rightarrow> c)"
proof -
  assume h: "holds_clients ls cs"
  have t: "\<And>c. find (has_id ident) cs = Some c \<Longrightarrow> truthy c"
    by (auto simp: find_Some_iff has_id_object truthy_def)
  show ?thesis using h t
    by (auto simp: getClientById_def holds_clients_def as_array_def js_find_ids split: option.splits)
qed

lemma getClientById_absent:
  "holds_clients ls cs \<Longrightarrow> \<forall>c \<in> set cs. \<not> has_id ident c \<Longrightarrow> getClientById ident ls = Inr JNull"
  by (simp add: getClientById_holds find_None_iff [THEN iffD2])

lemma updateClient_absent:
  assumes "holds_clients ls cs" and "\<forall>c \<in> set cs. \<not> has_id ident c"
  shows "updateClient ident updatedData env ls = Inr (JNull, ls)"
proof -
  have "js_findIndex (id_equals ident) cs = Inr None"
    using assms by (intro js_findIndex_none) (auto simp: holds_clients_def)
  then show ?thesis
    using assms(1) by (simp add: updateClient_def holds_clients_def as_array_def)
qed

text \<open>
  C10.  When no stored client has the identifier, \<open>updateClient\<close> and
  \<open>addExerciseEntry\<close> return \<open>null\<close> and the storage after the call is the
  storage before it.
\<close>

theorem not_found_no_write:
  assumes "holds_clients ls cs" and "\<forall>c \<in> set cs. \<not> has_id ident c"
  shows "updateClient ident updatedData env ls = Inr (JNull, ls)
       \<and> addExerciseEntry ident exerciseData env ls = Inr (JNull, ls)"
proof -
  have "updateClient ident updatedData env ls = Inr (JNull, ls)"
    by (rule updateClient_absent [OF assms])
  moreover have "addExerciseEntry ident exerciseData env ls = Inr (JNull, ls)"
    using getClientById_absent [OF assms] by (simp add: addExerciseEntry_def truthy_def)
  ultimately show ?thesis by simp
qed

lemma length_filter_eq: "(length (filter P xs) = length xs) = (\<forall>x \<in> set xs. P x)"
proof
  assume l: "length (filter P xs) = length xs"
  show "\<forall>x \<in> set xs. P x"
  proof
    fix x assume "x \<in> set xs"
    then show "P x" using length_filter_less [of x xs P] l by auto
  qed
next
  assume "\<forall>x \<in> set xs. P x"
  then show "length (filter P xs) = length xs" by simp
qed

text \<open>What \<open>deleteClient\<close> does on a storage that holds a collection.\<close>

lemma deleteClient_result:
  assumes "holds_clients ls cs"
  shows "\<exists>ls'. deleteClient ident ls = Inr ((\<exists>c \<in> set cs. has_id ident c), ls')
           \<and> holds_clients ls' (filter (\<lambda>c. \<not> has_id ident c) cs)
           \<and> ((\<forall>c \<in> set cs. \<not> has_id ident c) \<longrightarrow> ls' = ls)"
proof -
  let ?keep = "filter (\<lambda>c. \<not> has_id ident c) cs"
  have nn: "JNull \<notin> set cs" and g: "getClients ls = Inr (JArr cs)"
    using assms by (auto simp: holds_clients_def)
  have f: "js_filter (id_differs ident) cs = Inr ?keep"
    by (rule js_filter_ids [OF nn])
  have wf: "wf_elements ?keep"
    using holds_clients_wf [OF assms] by (auto simp: wf_elements_iff)
  have nn': "JNull \<notin> set ?keep" using nn by auto
  show ?thesis
  proof (cases "\<exists>c \<in> set cs. has_id ident c")
    case True
    then have l: "length ?keep \<noteq> length cs" by (auto simp: length_filter_eq)
    let ?ls' = "saveClients (JArr ?keep) ls"
    have d: "deleteClient ident ls = Inr (True, ?ls')"
      using g f l by (simp add: deleteClient_def as_array_def)
    have h: "holds_clients ?ls' ?keep"
      by (rule holds_clients_save [OF wf nn'])
    show ?thesis using True d h by auto
  next
    case False
    then have k: "?keep = cs" by simp
    have d: "deleteClient ident ls = Inr (False, ls)"
      using g f k by (simp add: deleteClient_def as_array_def)
    show ?thesis using False d assms k by auto
  qed
qed

text \<open>
  C5.  \<open>deleteClient\<close> returns true exactly when some stored record has the
  identifier; afterwards the storage holds the records that do not have it, in
  their order, and \<open>getClientById\<close> of the identifier returns \<open>null\<close>.  When no
  record has the identifier the result is false and the storage is unchanged.
\<close>

theorem deleteClient_correct:
  assumes "holds_clients ls cs"
  shows "\<exists>ls'. deleteClient ident ls = Inr ((\<exists>c \<in> set cs. has_id ident c), ls')
           \<and> holds_clients ls' (filter (\<lambda>c. \<not> has_id ident c) cs)
           \<and> getClientById ident ls' = Inr JNull
           \<and> ((\<forall>c \<in> set cs. \<not> has_id ident c) \<longrightarrow> ls' = ls)"
proof -
  from deleteClient_result [OF assms, of ident]
  obtain ls' where r: "deleteClient ident ls = Inr ((\<exists>c \<in> set cs. has_id ident c), ls')"
    "holds_clients ls' (filter (\<lambda>c. \<not> has_id ident c) cs)"
    "(\<forall>c \<in> set cs. \<not> has_id ident c) \<longrightarrow> ls' = ls"
    by (elim exE conjE)
  have "\<forall>c \<in> set (filter (\<lambda>c. \<not> has_id ident c) cs). \<not> has_id ident c" by simp
  then have g: "getClientById ident ls' = Inr JNull"
    by (rule getClientById_absent [OF r(2)])
  show ?thesis
    by (intro exI conjI) (rule r(1) r(2) g r(3))+
qed

lemma demo_holds: "holds_clients demo_store [demo_client]"
  by code_simp

lemma demo_env_id: "generateId (Date_now demo_env) (Math_random_36 demo_env) = ''client_1700000000000_i''"
  by (simp add: demo_env_def generateId_def substr_def show_nat.simps digit_char_def)

theorem not_found_no_write_witness:
  "holds_clients demo_store [demo_client]
   \<and> \<not> has_id ''client_0_x'' demo_client
   \<and> updateClient ''client_0_x'' [(''age'', JNum 29)] demo_env demo_store = Inr (JNull, demo_store)
   \<and> addExerciseEntry ''client_0_x'' [(''title'', JStr ''Run'')] demo_env demo_store
       = Inr (JNull, demo_store)"
proof -
  have a: "\<forall>c \<in> set [demo_client]. \<not> has_id ''client_0_x'' c"
    by (simp add: has_id_def get_prop_def demo_client_def)
  show ?thesis
    using demo_holds a not_found_no_write [OF demo_holds a] by simp
qed

theorem deleteClient_correct_witness:
  "holds_clients demo_store [demo_client]
   \<and> (\<exists>ls'. deleteClient ''client_1700000000000_i'' demo_store = Inr (True, ls')
          \<and> holds_clients ls' []
          \<and> getClientById ''client_1700000000000_i'' ls' = Inr JNull)"
proof -
  have h: "has_id ''client_1700000000000_i'' demo_client"
    by (simp add: has_id_def get_prop_def demo_client_def)
  show ?thesis
    using demo_holds deleteClient_correct [OF demo_holds, of "''client_1700000000000_i''"] h
    by auto
qed

lemma has_id_client_id: "has_id ident c = (client_id c = Some (JStr ident))"
  by (cases c) (auto simp: has_id_def get_prop_def client_id_def)

lemma map_of_spread_other:
  "k \<notin> set (map fst source) \<Longrightarrow> map_of (spread target source) k = map_of target k"
proof (induction source arbitrary: target)
  case Nil
  show ?case by (simp add: spread_def)
next
  case (Cons p source)
  obtain k' v where p: "p = (k', v)" by (cases p)
  have "map_of (spread (obj_set target k' v) source) k = map_of (obj_set target k' v) k"
    using Cons.prems by (intro Cons.IH) simp
  then show ?case using p Cons.prems by (simp add: spread_def map_of_obj_set)
qed

lemma spread_empty: "distinct (map fst fs) \<Longrightarrow> spread [] fs = fs"
  using spread_append [of "[]" fs] by simp

lemma wf_object:
  "distinct (map fst fs) \<Longrightarrow> wf_members fs \<Longrightarrow> wf_json (JObj fs)"
  by simp

lemma wf_elements_update:
  "wf_elements cs \<Longrightarrow> wf_json c \<Longrightarrow> wf_elements (cs[i := c])"
  by (auto simp: wf_elements_iff dest: set_update_subset_insert [THEN subsetD])

lemma wf_elements_nth: "wf_elements cs \<Longrightarrow> i < length cs \<Longrightarrow> wf_json (cs ! i)"
  by (simp add: wf_elements_iff)

text \<open>What \<open>updateClient\<close> does when a record has the identifier.\<close>

lemma updateClient_found:
  assumes h: "holds_clients ls cs" and d: "wf_members updatedData"
    and e: "\<exists>c \<in> set cs. has_id ident c"
  shows "\<exists>i fs. i < length cs \<and> cs ! i = JObj fs \<and> map_of fs ''id'' = Some (JStr ident)
           \<and> (\<forall>j < i. \<not> has_id ident (cs ! j))
           \<and> updateClient ident updatedData env ls
               = Inr (JObj (obj_set (spread fs updatedData) ''updatedAt'' (JStr (Date_toISOString env))),
                      saveClients (JArr (cs[i := JObj (obj_set (spread fs updatedData) ''updatedAt''
                                                       (JStr (Date_toISOString env)))])) ls)
           \<and> holds_clients
                 (saveClients (JArr (cs[i := JObj (obj_set (spread fs updatedData) ''updatedAt''
                                                       (JStr (Date_toISOString env)))])) ls)
                 (cs[i := JObj (obj_set (spread fs updatedData) ''updatedAt''
                                  (JStr (Date_toISOString env)))])"
proof -
  have nn: "JNull \<notin> set cs" and g: "getClients ls = Inr (JArr cs)"
    using h by (auto simp: holds_clients_def)
  have wf: "wf_elements cs" by (rule holds_clients_wf [OF h])
  obtain i where i: "js_findIndex (id_equals ident) cs = Inr (Some i)" "i < length cs"
    "has_id ident (cs ! i)" "\<forall>j < i. \<not> has_id ident (cs ! j)"
    using js_findIndex_some [OF nn e] by blast
  obtain fs where fs: "cs ! i = JObj fs" "map_of fs ''id'' = Some (JStr ident)"
    using i(3) by (auto simp: has_id_object)
  have wfs: "distinct (map fst fs)" "wf_members fs"
    using wf_elements_nth [OF wf i(2)] fs(1) by simp_all
  let ?fs' = "obj_set (spread fs updatedData) ''updatedAt'' (JStr (Date_toISOString env))"
  have own: "spread [] (own_props (cs ! i)) = fs"
    using fs(1) wfs(1) by (simp add: own_props_def spread_empty)
  have u: "updateClient ident updatedData env ls
             = Inr (JObj ?fs', saveClients (JArr (cs[i := JObj ?fs'])) ls)"
    using g i(1) own by (simp add: updateClient_def as_array_def Let_def)
  have "wf_json (JObj ?fs')"
    using wfs d by (intro wf_object distinct_obj_set distinct_spread wf_members_obj_set
        wf_members_spread) simp_all
  then have wf': "wf_elements (cs[i := JObj ?fs'])"
    by (rule wf_elements_update [OF wf])
  have nn': "JNull \<notin> set (cs[i := JObj ?fs'])"
    using nn by (auto dest: set_update_subset_insert [THEN subsetD])
  have "holds_clients (saveClients (JArr (cs[i := JObj ?fs'])) ls) (cs[i := JObj ?fs'])"
    by (rule holds_clients_save [OF wf' nn'])
  then show ?thesis using i(2) i(4) fs u by blast
qed

text \<open>
  C6.  When some stored record has the identifier, \<open>updateClient\<close> with an
  empty field map succeeds on the first such record: every property of the
  returned record other than \<open>updatedAt\<close> is the property of the stored record,
  \<open>updatedAt\<close> is the current time, and the storage afterwards holds the old
  collection with that one element replaced, every other element being the
  same.
\<close>

theorem updateClient_empty_frame:
  assumes "holds_clients ls cs" and "\<exists>c \<in> set cs. has_id ident c"
  shows "\<exists>i fs fs' ls'. i < length cs \<and> cs ! i = JObj fs \<and> has_id ident (cs ! i)
           \<and> (\<forall>j < i. \<not> has_id ident (cs ! j))
           \<and> updateClient ident [] env ls = Inr (JObj fs', ls')
           \<and> (\<forall>k. k \<noteq> ''updatedAt'' \<longrightarrow> map_of fs' k = map_of fs k)
           \<and> map_of fs' ''updatedAt'' = Some (JStr (Date_toISOString env))
           \<and> holds_clients ls' (cs[i := JObj fs'])
           \<and> (\<forall>j < length cs. j \<noteq> i \<longrightarrow> cs[i := JObj fs'] ! j = cs ! j)"
proof -
  have w: "wf_members []" by simp
  have s: "\<And>fs. spread fs [] = fs" by (simp add: spread_def)
  from updateClient_found [OF assms(1) w assms(2), of env, unfolded s]
  obtain i fs where r: "i < length cs" "cs ! i = JObj fs" "map_of fs ''id'' = Some (JStr ident)"
    "\<forall>j < i. \<not> has_id ident (cs ! j)"
    "updateClient ident [] env ls
       = Inr (JObj (obj_set fs ''updatedAt'' (JStr (Date_toISOString env))),
              saveClients (JArr (cs[i := JObj (obj_set fs ''updatedAt''
                                               (JStr (Date_toISOString env)))])) ls)"
    "holds_clients
       (saveClients (JArr (cs[i := JObj (obj_set fs ''updatedAt''
                                        (JStr (Date_toISOString env)))])) ls)
       (cs[i := JObj (obj_set fs ''updatedAt'' (JStr (Date_toISOString env)))])"
    by (elim exE conjE)
  let ?fs' = "obj_set fs ''updatedAt'' (JStr (Date_toISOString env))"
  have a: "\<forall>k. k \<noteq> ''updatedAt'' \<longrightarrow> map_of ?fs' k = map_of fs k"
    by (simp add: map_of_obj_set)
  have b: "map_of ?fs' ''updatedAt'' = Some (JStr (Date_toISOString env))"
    by (simp add: map_of_obj_set)
  have c: "has_id ident (cs ! i)" using r(2) r(3) by (simp add: has_id_object)
  have d: "\<forall>j < length cs. j \<noteq> i \<longrightarrow> cs[i := JObj ?fs'] ! j = cs ! j" by simp
  show ?thesis
    by (intro exI conjI) (rule r(1) r(2) c r(4) r(5) a b r(6) d)+
qed

theorem updateClient_empty_frame_witness:
  "holds_clients demo_store [demo_client]
   \<and> (\<exists>c \<in> set [demo_client]. has_id ''client_1700000000000_i'' c)
   \<and> (\<exists>fs' ls'. updateClient ''client_1700000000000_i'' [] demo_env demo_store = Inr (JObj fs', ls')
          \<and> map_of fs' ''fullName'' = Some (JStr ''Sara Ahmed'')
          \<and> map_of fs' ''updatedAt'' = Some (JStr ''2023-11-14T22:13:20.000Z'')
          \<and> holds_clients ls' [JObj fs'])"
proof -
  have h: "\<exists>c \<in> set [demo_client]. has_id ''client_1700000000000_i'' c"
    by (simp add: has_id_def get_prop_def demo_client_def)
  from updateClient_empty_frame [OF demo_holds h, of demo_env]
  obtain i fs fs' ls' where r: "i < length [demo_client]" "[demo_client] ! i = JObj fs"
    "updateClient ''client_1700000000000_i'' [] demo_env demo_store = Inr (JObj fs', ls')"
    "\<forall>k. k \<noteq> ''updatedAt'' \<longrightarrow> map_of fs' k = map_of fs k"
    "map_of fs' ''updatedAt'' = Some (JStr (Date_toISOString demo_env))"
    "holds_clients ls' ([demo_client][i := JObj fs'])"
    by (elim exE conjE)
  have i0: "i = 0" using r(1) by simp
  have fs: "fs = [(''id'', JStr ''client_1700000000000_i''), (''fullName'', JStr ''Sara Ahmed''),
                  (''age'', JNum 28), (''exerciseHistory'', JArr [])]"
    using r(2) i0 by (simp add: demo_client_def)
  have "map_of fs' ''fullName'' = map_of fs ''fullName''"
    using r(4) by simp
  then have a: "map_of fs' ''fullName'' = Some (JStr ''Sara Ahmed'')"
    by (simp add: fs)
  have b: "map_of fs' ''updatedAt'' = Some (JStr ''2023-11-14T22:13:20.000Z'')"
    using r(5) by (simp add: demo_env_def)
  have c: "holds_clients ls' [JObj fs']" using r(6) i0 by simp
  show ?thesis
    by (intro exI conjI) (rule demo_holds h r(3) a b c)+
qed

lemma find_append_none: "\<forall>x \<in> set xs. \<not> P x \<Longrightarrow> find P (xs @ ys) = find P ys"
  by (induction xs) auto

text \<open>What \<open>addClient\<close> does on a storage that holds a collection.\<close>

lemma addClient_result:
  assumes h: "holds_clients ls cs" and d: "wf_members clientData"
  shows "addClient clientData env ls
           = Inr (JObj (obj_set (obj_set
                    (spread [(''id'', JStr (generateId (Date_now env) (Math_random_36 env)))] clientData)
                    ''createdAt'' (JStr (Date_toISOString env))) ''exerciseHistory'' (JArr [])),
                  saveClients (JArr (cs @ [JObj (obj_set (obj_set
                    (spread [(''id'', JStr (generateId (Date_now env) (Math_random_36 env)))] clientData)
                    ''createdAt'' (JStr (Date_toISOString env))) ''exerciseHistory'' (JArr []))])) ls)"
    and "holds_clients
           (saveClients (JArr (cs @ [JObj (obj_set (obj_set
                    (spread [(''id'', JStr (generateId (Date_now env) (Math_random_36 env)))] clientData)
                    ''createdAt'' (JStr (Date_toISOString env))) ''exerciseHistory'' (JArr []))])) ls)
           (cs @ [JObj (obj_set (obj_set
                    (spread [(''id'', JStr (generateId (Date_now env) (Math_random_36 env)))] clientData)
                    ''createdAt'' (JStr (Date_toISOString env))) ''exerciseHistory'' (JArr []))])"
proof -
  let ?fs = "obj_set (obj_set
                    (spread [(''id'', JStr (generateId (Date_now env) (Math_random_36 env)))] clientData)
                    ''createdAt'' (JStr (Date_toISOString env))) ''exerciseHistory'' (JArr [])"
  have nn: "JNull \<notin> set cs" and g: "getClients ls = Inr (JArr cs)"
    using h by (auto simp: holds_clients_def)
  show "addClient clientData env ls = Inr (JObj ?fs, saveClients (JArr (cs @ [JObj ?fs])) ls)"
    using g by (simp add: addClient_def as_array_def Let_def)
  have "wf_json (JObj ?fs)"
    using d by (intro wf_object distinct_obj_set distinct_spread wf_members_obj_set
        wf_members_spread) simp_all
  then have wf: "wf_elements (cs @ [JObj ?fs])"
    using holds_clients_wf [OF h] by (simp add: wf_elements_snoc del: wf_json.simps)
  have nn': "JNull \<notin> set (cs @ [JObj ?fs])" using nn by simp
  show "holds_clients (saveClients (JArr (cs @ [JObj ?fs])) ls) (cs @ [JObj ?fs])"
    by (rule holds_clients_save [OF wf nn'])
qed

text \<open>
  C2 (as amended).  For supplied fields that are distinct, well formed and
  none of \<open>id\<close>, \<open>createdAt\<close>, \<open>exerciseHistory\<close>, and provided the generated
  identifier is not already the identifier of a stored record, \<open>addClient\<close>
  returns the record made of the new identifier, the supplied fields, the
  creation time and an empty history, in this order; the storage afterwards
  holds the old collection followed by this record, and \<open>getClientById\<close> of
  the returned identifier yields this record.
\<close>

theorem addClient_getClientById:
  assumes h: "holds_clients ls cs"
    and d: "distinct (map fst clientData)" "wf_members clientData"
    and k: "''id'' \<notin> set (map fst clientData)" "''createdAt'' \<notin> set (map fst clientData)"
           "''exerciseHistory'' \<notin> set (map fst clientData)"
    and fresh: "\<forall>c \<in> set cs. \<not> has_id (generateId (Date_now env) (Math_random_36 env)) c"
  shows "\<exists>ls'. addClient clientData env ls
                 = Inr (JObj ((''id'', JStr (generateId (Date_now env) (Math_random_36 env))) # clientData
                              @ [(''createdAt'', JStr (Date_toISOString env)),
                                 (''exerciseHistory'', JArr [])]), ls')
           \<and> holds_clients ls'
                 (cs @ [JObj ((''id'', JStr (generateId (Date_now env) (Math_random_36 env))) # clientData
                              @ [(''createdAt'', JStr (Date_toISOString env)),
                                 (''exerciseHistory'', JArr [])])])
           \<and> getClientById (generateId (Date_now env) (Math_random_36 env)) ls'
                 = Inr (JObj ((''id'', JStr (generateId (Date_now env) (Math_random_36 env))) # clientData
                              @ [(''createdAt'', JStr (Date_toISOString env)),
                                 (''exerciseHistory'', JArr [])]))"
proof -
  let ?nid = "generateId (Date_now env) (Math_random_36 env)"
  let ?rec = "JObj ((''id'', JStr ?nid) # clientData
                    @ [(''createdAt'', JStr (Date_toISOString env)), (''exerciseHistory'', JArr [])])"
  have s1: "spread [(''id'', JStr ?nid)] clientData = (''id'', JStr ?nid) # clientData"
    using d(1) k(1) by (subst spread_append) simp_all
  have s2: "obj_set ((''id'', JStr ?nid) # clientData) ''createdAt'' (JStr (Date_toISOString env))
              = ((''id'', JStr ?nid) # clientData) @ [(''createdAt'', JStr (Date_toISOString env))]"
    using k(2) by (intro obj_set_fresh) auto
  have s3: "obj_set (((''id'', JStr ?nid) # clientData) @ [(''createdAt'', JStr (Date_toISOString env))])
               ''exerciseHistory'' (JArr [])
              = (((''id'', JStr ?nid) # clientData) @ [(''createdAt'', JStr (Date_toISOString env))])
                @ [(''exerciseHistory'', JArr [])]"
    using k(3) by (intro obj_set_fresh) auto
  let ?ls' = "saveClients (JArr (cs @ [?rec])) ls"
  have a: "addClient clientData env ls = Inr (?rec, ?ls')"
    using addClient_result(1) [OF h d(2), of env] by (simp only: s1 s2 s3) simp
  have b: "holds_clients ?ls' (cs @ [?rec])"
    using addClient_result(2) [OF h d(2), of env] by (simp only: s1 s2 s3) simp
  have "has_id ?nid ?rec" by (simp add: has_id_object)
  then have "find (has_id ?nid) (cs @ [?rec]) = Some ?rec"
    using fresh by (simp add: find_append_none)
  then have c: "getClientById ?nid ?ls' = Inr ?rec"
    using getClientById_holds [OF b, of ?nid] by simp
  show ?thesis
    by (intro exI conjI) (rule a b c)+
qed

lemma unique_after_delete:
  assumes h: "holds_clients ls cs" and u: "unique_ids cs"
    and r: "deleteClient ident ls = Inr (b, ls')"
  shows "\<exists>cs'. holds_clients ls' cs' \<and> unique_ids cs'"
proof -
  from deleteClient_result [OF h, of ident]
  obtain ls1 where d: "deleteClient ident ls = Inr ((\<exists>c \<in> set cs. has_id ident c), ls1)"
    "holds_clients ls1 (filter (\<lambda>c. \<not> has_id ident c) cs)"
    by (elim exE conjE)
  have "ls1 = ls'" using d(1) r by simp
  moreover have "unique_ids (filter (\<lambda>c. \<not> has_id ident c) cs)"
    using u by (simp add: unique_ids_def distinct_map_filter)
  ultimately show ?thesis using d(2) by blast
qed

lemma map_update_same: "i < length xs \<Longrightarrow> f y = f (xs ! i) \<Longrightarrow> map f (xs[i := y]) = map f xs"
  by (simp add: map_update list_update_same_conv)

lemma unique_after_update:
  assumes h: "holds_clients ls cs" and u: "unique_ids cs"
    and d: "wf_members updatedData" and k: "''id'' \<notin> set (map fst updatedData)"
    and r: "updateClient ident updatedData env ls = Inr (res, ls')"
  shows "\<exists>cs'. holds_clients ls' cs' \<and> unique_ids cs'"
proof (cases "\<exists>c \<in> set cs. has_id ident c")
  case False
  then have "updateClient ident updatedData env ls = Inr (JNull, ls)"
    using updateClient_absent [OF h, of ident updatedData env] by simp
  then have "ls' = ls" using r by simp
  then show ?thesis using h u by blast
next
  case True
  let ?new = "\<lambda>fs. JObj (obj_set (spread fs updatedData) ''updatedAt'' (JStr (Date_toISOString env)))"
  from updateClient_found [OF h d True, of env]
  obtain i fs where f: "i < length cs" "cs ! i = JObj fs"
    "updateClient ident updatedData env ls = Inr (?new fs, saveClients (JArr (cs[i := ?new fs])) ls)"
    "holds_clients (saveClients (JArr (cs[i := ?new fs])) ls) (cs[i := ?new fs])"
    by (elim exE conjE)
  have l: "ls' = saveClients (JArr (cs[i := ?new fs])) ls" using f(3) r by simp
  have "client_id (?new fs) = client_id (cs ! i)"
    using f(2) k by (simp add: client_id_def map_of_obj_set map_of_spread_other)
  then have "map client_id (cs[i := ?new fs]) = map client_id cs"
    by (rule map_update_same [OF f(1)])
  then have "unique_ids (cs[i := ?new fs])" using u by (simp add: unique_ids_def)
  then show ?thesis using f(4) l by blast
qed

lemma wf_members_lookup: "wf_members fs \<Longrightarrow> map_of fs k = Some v \<Longrightarrow> wf_json v"
  by (induction fs) (auto split: if_splits)

lemma unique_after_entry:
  assumes h: "holds_clients ls cs" and u: "unique_ids cs"
    and d: "wf_members exerciseData"
    and r: "addExerciseEntry ident exerciseData env ls = Inr (res, ls')"
  shows "\<exists>cs'. holds_clients ls' cs' \<and> unique_ids cs'"
proof (cases "find (has_id ident) cs")
  case None
  then have "getClientById ident ls = Inr JNull"
    using getClientById_holds [OF h, of ident] by simp
  then have "ls' = ls" using r by (simp add: addExerciseEntry_def truthy_def)
  then show ?thesis using h u by blast
next
  case (Some c)
  then have c: "c \<in> set cs" "has_id ident c"
    by (auto simp: find_Some_iff)
  obtain fs where fs: "c = JObj fs" using c(2) by (auto simp: has_id_object)
  have wfc: "wf_members fs"
    using holds_clients_wf [OF h] c(1) fs by (auto simp: wf_elements_iff)
  have g: "getClientById ident ls = Inr c"
    using getClientById_holds [OF h, of ident] Some by simp
  let ?hist = "case map_of fs ''exerciseHistory'' of None \<Rightarrow> JArr []
               | Some v \<Rightarrow> if truthy v then v else JArr []"
  have wh: "wf_json ?hist"
    using wfc by (auto split: option.splits dest: wf_members_lookup)
  show ?thesis
  proof (cases ?hist)
    case (JArr entries)
    let ?entry = "JObj (spread [(''id'', JStr (generateId (Date_now env) (Math_random_36 env)))]
                          exerciseData)"
    let ?data = "[(''exerciseHistory'', JArr (entries @ [?entry]))]"
    have up: "updateClient ident ?data env ls = Inr (res, ls')"
      using r g fs JArr by (simp add: addExerciseEntry_def truthy_def get_prop_def as_array_def Let_def)
    have we: "wf_json ?entry"
      using d by (intro wf_object distinct_spread wf_members_spread) simp_all
    have "wf_elements entries" using wh JArr by simp
    then have "wf_elements (entries @ [?entry])"
      using we by (simp add: wf_elements_snoc del: wf_json.simps)
    then have wd: "wf_members ?data" by simp
    have nk: "''id'' \<notin> set (map fst ?data)" by simp
    show ?thesis
      by (rule unique_after_update [OF h u wd nk up])
  qed (use r g fs in \<open>simp_all add: addExerciseEntry_def truthy_def get_prop_def as_array_def Let_def\<close>)
qed

lemma unique_after_add:
  assumes h: "holds_clients ls cs" and u: "unique_ids cs"
    and d: "wf_members clientData" and k: "''id'' \<notin> set (map fst clientData)"
    and fresh: "\<forall>c \<in> set cs. \<not> has_id (generateId (Date_now env) (Math_random_36 env)) c"
    and r: "addClient clientData env ls = Inr (res, ls')"
  shows "\<exists>cs'. holds_clients ls' cs' \<and> unique_ids cs'"
proof -
  let ?nid = "generateId (Date_now env) (Math_random_36 env)"
  let ?rec = "JObj (obj_set (obj_set (spread [(''id'', JStr ?nid)] clientData)
                    ''createdAt'' (JStr (Date_toISOString env))) ''exerciseHistory'' (JArr []))"
  have l: "ls' = saveClients (JArr (cs @ [?rec])) ls"
    using addClient_result(1) [OF h d, of env] r by simp
  have "client_id ?rec = Some (JStr ?nid)"
    using k by (simp add: client_id_def map_of_obj_set map_of_spread_other)
  moreover have "Some (JStr ?nid) \<notin> set (map client_id cs)"
    using fresh by (auto simp: has_id_client_id)
  ultimately have "unique_ids (cs @ [?rec])"
    using u by (simp add: unique_ids_def del: set_map)
  then show ?thesis using addClient_result(2) [OF h d, of env] l by blast
qed

text \<open>
  C8 (as amended).  From a stored collection with pairwise different
  identifiers, each repository operation that returns leaves a stored
  collection with pairwise different identifiers: \<open>deleteClient\<close> and
  \<open>addExerciseEntry\<close> always, \<open>updateClient\<close> when the update fields carry no
  \<open>id\<close>, and \<open>addClient\<close> when the supplied fields carry no \<open>id\<close> and the
  generated identifier is not already in the collection.
\<close>

theorem unique_ids_preserved:
  assumes "holds_clients ls cs" and "unique_ids cs"
  shows "(deleteClient ident ls = Inr (b, ls1) \<longrightarrow> (\<exists>cs'. holds_clients ls1 cs' \<and> unique_ids cs'))
       \<and> (wf_members updatedData \<and> ''id'' \<notin> set (map fst updatedData)
            \<and> updateClient ident updatedData env ls = Inr (r2, ls2)
           \<longrightarrow> (\<exists>cs'. holds_clients ls2 cs' \<and> unique_ids cs'))
       \<and> (wf_members exerciseData \<and> addExerciseEntry ident exerciseData env ls = Inr (r3, ls3)
           \<longrightarrow> (\<exists>cs'. holds_clients ls3 cs' \<and> unique_ids cs'))
       \<and> (wf_members clientData \<and> ''id'' \<notin> set (map fst clientData)
            \<and> (\<forall>c \<in> set cs. \<not> has_id (generateId (Date_now env) (Math_random_36 env)) c)
            \<and> addClient clientData env ls = Inr (r4, ls4)
           \<longrightarrow> (\<exists>cs'. holds_clients ls4 cs' \<and> unique_ids cs'))"
proof (intro conjI impI)
  assume "deleteClient ident ls = Inr (b, ls1)"
  then show "\<exists>cs'. holds_clients ls1 cs' \<and> unique_ids cs'"
    by (rule unique_after_delete [OF assms])
next
  assume a: "wf_members updatedData \<and> ''id'' \<notin> set (map fst updatedData)
            \<and> updateClient ident updatedData env ls = Inr (r2, ls2)"
  show "\<exists>cs'. holds_clients ls2 cs' \<and> unique_ids cs'"
    by (rule unique_after_update [OF assms a [THEN conjunct1] a [THEN conjunct2, THEN conjunct1]
          a [THEN conjunct2, THEN conjunct2]])
next
  assume a: "wf_members exerciseData \<and> addExerciseEntry ident exerciseData env ls = Inr (r3, ls3)"
  show "\<exists>cs'. holds_clients ls3 cs' \<and> unique_ids cs'"
    by (rule unique_after_entry [OF assms a [THEN conjunct1] a [THEN conjunct2]])
next
  assume a: "wf_members clientData \<and> ''id'' \<notin> set (map fst clientData)
            \<and> (\<forall>c \<in> set cs. \<not> has_id (generateId (Date_now env) (Math_random_36 env)) c)
            \<and> addClient clientData env ls = Inr (r4, ls4)"
  show "\<exists>cs'. holds_clients ls4 cs' \<and> unique_ids cs'"
    by (rule unique_after_add [OF assms a [THEN conjunct1] a [THEN conjunct2, THEN conjunct1]
          a [THEN conjunct2, THEN conjunct2, THEN conjunct1]
          a [THEN conjunct2, THEN conjunct2, THEN conjunct2]])
qed

lemma demo_env_fresh_id:
  "generateId (Date_now demo_env_fresh) (Math_random_36 demo_env_fresh) = ''client_1700000000000_4fzyo82mv''"
  by (simp add: demo_env_fresh_def generateId_def substr_def show_nat.simps digit_char_def)

lemma demo_unique: "unique_ids [demo_client]"
  by (simp add: unique_ids_def)

lemma demo_fresh:
  "\<forall>c \<in> set [demo_client].
     \<not> has_id (generateId (Date_now demo_env_fresh) (Math_random_36 demo_env_fresh)) c"
  by (simp add: demo_env_fresh_id has_id_def get_prop_def demo_client_def)

lemma demo_fresh_client:
  "\<not> has_id (generateId (Date_now demo_env_fresh) (Math_random_36 demo_env_fresh)) demo_client"
  using demo_fresh by simp

lemma demo_add_value:
  "addClient demo_fields demo_env_fresh demo_store
     = Inr (JObj [(''id'', JStr ''client_1700000000000_4fzyo82mv''),
                  (''fullName'', JStr ''Omar Hassan''), (''age'', JNum 32),
                  (''createdAt'', JStr ''2023-11-14T22:13:20.000Z''),
                  (''exerciseHistory'', JArr [])],
            saveClients (JArr [demo_client,
                 JObj [(''id'', JStr ''client_1700000000000_4fzyo82mv''),
                  (''fullName'', JStr ''Omar Hassan''), (''age'', JNum 32),
                  (''createdAt'', JStr ''2023-11-14T22:13:20.000Z''),
                  (''exerciseHistory'', JArr [])]]) demo_store)"
  using addClient_result(1) [OF demo_holds, of demo_fields demo_env_fresh]
  by (simp add: demo_env_fresh_id) (simp add: demo_fields_def spread_def demo_env_fresh_def)

theorem unique_ids_preserved_witness:
  "holds_clients demo_store [demo_client] \<and> unique_ids [demo_client]
   \<and> wf_members demo_fields \<and> ''id'' \<notin> set (map fst demo_fields)
   \<and> \<not> has_id (generateId (Date_now demo_env_fresh) (Math_random_36 demo_env_fresh)) demo_client
   \<and> (\<exists>cs'. holds_clients
               (saveClients (JArr [demo_client,
                 JObj [(''id'', JStr ''client_1700000000000_4fzyo82mv''),
                  (''fullName'', JStr ''Omar Hassan''), (''age'', JNum 32),
                  (''createdAt'', JStr ''2023-11-14T22:13:20.000Z''),
                  (''exerciseHistory'', JArr [])]]) demo_store) cs'
             \<and> unique_ids cs')"
proof -
  have w: "wf_members demo_fields" "''id'' \<notin> set (map fst demo_fields)"
    by (simp_all add: demo_fields_def)
  have "\<exists>cs'. holds_clients
               (saveClients (JArr [demo_client,
                 JObj [(''id'', JStr ''client_1700000000000_4fzyo82mv''),
                  (''fullName'', JStr ''Omar Hassan''), (''age'', JNum 32),
                  (''createdAt'', JStr ''2023-11-14T22:13:20.000Z''),
                  (''exerciseHistory'', JArr [])]]) demo_store) cs'
             \<and> unique_ids cs'"
    using unique_ids_preserved [OF demo_holds demo_unique, THEN conjunct2, THEN conjunct2,
        THEN conjunct2, THEN mp, OF conjI [OF w(1) conjI [OF w(2) conjI [OF demo_fresh demo_add_value]]]]
    .
  then show ?thesis
    using demo_holds demo_unique w demo_fresh_client by (intro conjI)
qed

lemma demo_add_collision:
  "addClient demo_fields demo_env demo_store
     = Inr (demo_collision, saveClients (JArr [demo_client, demo_collision]) demo_store)"
  "holds_clients (saveClients (JArr [demo_client, demo_collision]) demo_store)
     [demo_client, demo_collision]"
  using addClient_result [OF demo_holds, of demo_fields demo_env]
  by (simp_all add: demo_env_id) (simp_all add: demo_fields_def spread_def demo_env_def demo_collision_def)

text \<open>
  \<open>generateId\<close> does not look at the collection.  When the clock and the random
  numeral give the identifier of a stored client, \<open>addClient\<close> stores a second
  record under it, and the identifiers are no longer pairwise different.
\<close>

theorem unique_ids_collision_counterexample:
  "holds_clients demo_store [demo_client] \<and> unique_ids [demo_client]
   \<and> (case addClient demo_fields demo_env demo_store of
         Inl err \<Rightarrow> False
       | Inr (r, ls') \<Rightarrow> holds_clients ls' [demo_client, r] \<and> \<not> unique_ids [demo_client, r])"
proof -
  have "\<not> unique_ids [demo_client, demo_collision]"
    by (simp add: unique_ids_def client_id_def demo_client_def demo_collision_def)
  then show ?thesis
    using demo_holds demo_unique demo_add_collision by simp
qed

text \<open>
  In the same situation \<open>getClientById\<close> of the returned identifier yields the
  record that was stored before, not the one just added.
\<close>

theorem addClient_collision_counterexample:
  "holds_clients demo_store [demo_client]
   \<and> (case addClient demo_fields demo_env demo_store of
         Inl err \<Rightarrow> False
       | Inr (r, ls') \<Rightarrow>
           get_prop r ''id'' = Inr (Some (JStr ''client_1700000000000_i''))
           \<and> get_prop r ''fullName'' = Inr (Some (JStr ''Omar Hassan''))
           \<and> getClientById ''client_1700000000000_i'' ls' = Inr demo_client
           \<and> get_prop demo_client ''fullName'' = Inr (Some (JStr ''Sara Ahmed'')))"
proof -
  have "getClientById ''client_1700000000000_i''
          (saveClients (JArr [demo_client, demo_collision]) demo_store) = Inr demo_client"
    using getClientById_holds [OF demo_add_collision(2), of "''client_1700000000000_i''"]
    by (simp add: has_id_def get_prop_def demo_client_def)
  moreover have "get_prop demo_collision ''id'' = Inr (Some (JStr ''client_1700000000000_i''))"
    "get_prop demo_collision ''fullName'' = Inr (Some (JStr ''Omar Hassan''))"
    "get_prop demo_client ''fullName'' = Inr (Some (JStr ''Sara Ahmed''))"
    by (simp_all add: get_prop_def demo_collision_def demo_client_def)
  ultimately show ?thesis
    using demo_holds demo_add_collision(1) by simp
qed

theorem addClient_getClientById_witness:
  "holds_clients demo_store [demo_client]
   \<and> distinct (map fst demo_fields) \<and> wf_members demo_fields
   \<and> ''id'' \<notin> set (map fst demo_fields) \<and> ''createdAt'' \<notin> set (map fst demo_fields)
   \<and> ''exerciseHistory'' \<notin> set (map fst demo_fields)
   \<and> \<not> has_id (generateId (Date_now demo_env_fresh) (Math_random_36 demo_env_fresh)) demo_client
   \<and> (\<exists>ls'. addClient demo_fields demo_env_fresh demo_store
               = Inr (JObj [(''id'', JStr ''client_1700000000000_4fzyo82mv''),
                            (''fullName'', JStr ''Omar Hassan''), (''age'', JNum 32),
                            (''createdAt'', JStr ''2023-11-14T22:13:20.000Z''),
                            (''exerciseHistory'', JArr [])], ls')
          \<and> getClientById ''client_1700000000000_4fzyo82mv'' ls'
               = Inr (JObj [(''id'', JStr ''client_1700000000000_4fzyo82mv''),
                            (''fullName'', JStr ''Omar Hassan''), (''age'', JNum 32),
                            (''createdAt'', JStr ''2023-11-14T22:13:20.000Z''),
                            (''exerciseHistory'', JArr [])]))"
proof -
  have w: "distinct (map fst demo_fields)" "wf_members demo_fields"
    "''id'' \<notin> set (map fst demo_fields)" "''createdAt'' \<notin> set (map fst demo_fields)"
    "''exerciseHistory'' \<notin> set (map fst demo_fields)"
    by (simp_all add: demo_fields_def)
  from addClient_getClientById [OF demo_holds w demo_fresh]
  obtain ls' where r:
    "addClient demo_fields demo_env_fresh demo_store
       = Inr (JObj ((''id'', JStr (generateId (Date_now demo_env_fresh) (Math_random_36 demo_env_fresh)))
                    # demo_fields
                    @ [(''createdAt'', JStr (Date_toISOString demo_env_fresh)),
                       (''exerciseHistory'', JArr [])]), ls')"
    "getClientById (generateId (Date_now demo_env_fresh) (Math_random_36 demo_env_fresh)) ls'
       = Inr (JObj ((''id'', JStr (generateId (Date_now demo_env_fresh) (Math_random_36 demo_env_fresh)))
                    # demo_fields
                    @ [(''createdAt'', JStr (Date_toISOString demo_env_fresh)),
                       (''exerciseHistory'', JArr [])]))"
    by (elim exE conjE)
  note r' = r [unfolded demo_env_fresh_id]
  have e: "JObj ((''id'', JStr ''client_1700000000000_4fzyo82mv'')
                    # demo_fields
                    @ [(''createdAt'', JStr (Date_toISOString demo_env_fresh)),
                       (''exerciseHistory'', JArr [])])
           = JObj [(''id'', JStr ''client_1700000000000_4fzyo82mv''),
                            (''fullName'', JStr ''Omar Hassan''), (''age'', JNum 32),
                            (''createdAt'', JStr ''2023-11-14T22:13:20.000Z''),
                            (''exerciseHistory'', JArr [])]"
    by (simp add: demo_fields_def demo_env_fresh_def)
  show ?thesis
    by (intro exI conjI) (rule demo_holds w demo_fresh_client r'(1) [unfolded e] r'(2) [unfolded e])+
qed

subsection \<open>Rounding to a double\<close>

lemma floor_rat_numeral: "\<lfloor>(numeral a :: rat) / numeral b\<rfloor> = numeral a div numeral b"
  using floor_divide_of_int_eq [of "numeral a" "numeral b", where ?'a = rat] by simp

lemmas double_eval = random_index_def round_double_def ulp_def ilog2.simps round_even_def pow2_def
  is_double_def Let_def floor_rat_numeral

lemma pow2_powi: "pow2 e = 2 powi e"
  by (simp add: pow2_def power_int_def power_one_over inverse_eq_divide)

lemma pow2_pos: "0 < pow2 e"
  by (simp add: pow2_powi)

lemma pow2_add: "pow2 (a + b) = pow2 a * pow2 b"
  by (simp add: pow2_powi power_int_add)

lemma pow2_mono: "a \<le> b \<Longrightarrow> pow2 a \<le> pow2 b"
  by (simp add: pow2_powi power_int_increasing)

lemma pow2_0: "pow2 0 = 1"
  by (simp add: pow2_def)
lemma pow2_1: "pow2 1 = 2"
  by (simp add: pow2_def)
lemma pow2_m1: "pow2 (- 1) = 1 / 2"
  by (simp add: pow2_def)

lemma pow2_Suc: "pow2 (e + 1) = 2 * pow2 e"
  by (simp add: pow2_add pow2_1)

lemma pow2_pred: "pow2 (e - 1) = pow2 e / 2"
  using pow2_Suc [of "e - 1"] by simp

lemma ilog2_bounds: "0 < x \<Longrightarrow> pow2 (ilog2 x) \<le> x \<and> x < pow2 (ilog2 x + 1)"
proof (induction x rule: ilog2.induct)
  case (1 x)
  show ?case
  proof (cases "x < 1")
    case True
    have e: "ilog2 x = ilog2 (2 * x) - 1"
      using True "1.prems" by (subst ilog2.simps) simp
    have "pow2 (ilog2 (2 * x)) \<le> 2 * x \<and> 2 * x < pow2 (ilog2 (2 * x) + 1)"
      using True "1.prems" by (intro "1.IH"(1)) simp_all
    then show ?thesis by (simp add: e pow2_pred pow2_Suc)
  next
    case False
    show ?thesis
    proof (cases "2 \<le> x")
      case True
      have e: "ilog2 x = ilog2 (x / 2) + 1"
        using True by (subst ilog2.simps) simp
      have "pow2 (ilog2 (x / 2)) \<le> x / 2 \<and> x / 2 < pow2 (ilog2 (x / 2) + 1)"
        using True False "1.prems" by (intro "1.IH"(2)) simp_all
      moreover have "pow2 (ilog2 x) = 2 * pow2 (ilog2 (x / 2))"
        by (simp only: e pow2_Suc)
      moreover have "pow2 (ilog2 x + 1) = 2 * pow2 (ilog2 (x / 2) + 1)"
        by (simp only: e pow2_Suc)
      ultimately show ?thesis by simp
    next
      case n: False
      have e: "ilog2 x = 0"
        using False n by (subst ilog2.simps) simp
      show ?thesis using False n by (simp add: e pow2_0 pow2_1)
    qed
  qed
qed

lemma ilog2_nonpos: "x \<le> 0 \<Longrightarrow> ilog2 x = 0"
  by (subst ilog2.simps) simp

lemma ilog2_less: "0 < x \<Longrightarrow> x < pow2 k \<Longrightarrow> ilog2 x < k"
proof (rule ccontr)
  assume a: "0 < x" "x < pow2 k" and "\<not> ilog2 x < k"
  then have "pow2 k \<le> pow2 (ilog2 x)" by (intro pow2_mono) simp
  then show False using ilog2_bounds [OF a(1)] a(2) by simp
qed

lemma ulp_pos: "0 < ulp x"
  by (simp add: ulp_def pow2_pos)

lemma ulp_le:
  assumes "0 < x"
  shows "ulp x \<le> max (x * pow2 (- 52)) (pow2 (- 1074))"
proof (cases "- 1022 \<le> ilog2 x")
  case True
  have "ulp x = pow2 (ilog2 x + (- 52))" using True assms by (simp add: ulp_def max_def)
  also have "\<dots> = pow2 (ilog2 x) * pow2 (- 52)" by (rule pow2_add)
  also have "\<dots> \<le> x * pow2 (- 52)"
    using ilog2_bounds [OF assms] pow2_pos [of "- 52"] by simp
  finally show ?thesis by simp
next
  case False
  then have "ulp x = pow2 (- 1074)" using assms by (simp add: ulp_def max_def)
  then show ?thesis by simp
qed

lemma round_even_le: "of_int (round_even q) \<le> q + 1 / 2"
  by (simp add: round_even_def Let_def) linarith

lemma round_even_ge: "q - 1 / 2 \<le> of_int (round_even q)"
  by (simp add: round_even_def Let_def) linarith

lemma round_even_lower: "of_int k \<le> q \<Longrightarrow> k \<le> round_even q"
proof -
  assume "of_int k \<le> q"
  then have "k \<le> \<lfloor>q\<rfloor>" by (simp add: le_floor_iff)
  then show ?thesis by (simp add: round_even_def Let_def)
qed

lemma round_even_of_int: "round_even (of_int k) = k"
  by (simp add: round_even_def)

lemma round_double_le: "round_double x \<le> x + ulp x / 2"
proof -
  have "of_int (round_even (x / ulp x)) * ulp x \<le> (x / ulp x + 1 / 2) * ulp x"
    using round_even_le [of "x / ulp x"] ulp_pos [of x] by (intro mult_right_mono) simp_all
  also have "\<dots> = x + ulp x / 2"
    using ulp_pos [of x] by (simp add: field_simps)
  finally show ?thesis by (simp add: round_double_def)
qed

lemma round_double_0: "round_double 0 = 0"
  by (simp add: round_double_def round_even_def)

lemma round_double_nonneg: "0 \<le> x \<Longrightarrow> 0 \<le> round_double x"
proof -
  assume "0 \<le> x"
  then have "of_int 0 \<le> x / ulp x" using ulp_pos [of x] by simp
  then have "0 \<le> round_even (x / ulp x)" by (rule round_even_lower)
  then show ?thesis using ulp_pos [of x] by (simp add: round_double_def)
qed

text \<open>The largest double below 1 is \<open>1 - 2^-53\<close>.\<close>

lemma double_below_one:
  assumes "is_double r" and "0 \<le> r" and "r < 1"
  shows "r \<le> 1 - pow2 (- 53)"
proof (cases "r = 0")
  case True
  have "pow2 (- 53) \<le> pow2 0" by (rule pow2_mono) simp
  then show ?thesis using True by (simp add: pow2_0)
next
  case False
  then have p: "0 < r" using assms(2) by simp
  have "r < pow2 0" using assms(3) by (simp add: pow2_0)
  then have l: "ilog2 r < 0" by (rule ilog2_less [OF p])
  show ?thesis
  proof (cases "ilog2 r = - 1")
    case True
    have u: "ulp r = pow2 (- 53)" using p True by (simp add: ulp_def)
    define k where "k = \<lfloor>r / pow2 (- 53)\<rfloor>"
    have k: "of_int k = r / pow2 (- 53)" using assms(1) u by (simp add: is_double_def k_def)
    have i: "1 / pow2 (- 53) = of_int (2 ^ 53)" by (simp add: pow2_def)
    have "r / pow2 (- 53) < 1 / pow2 (- 53)"
      using assms(3) pow2_pos [of "- 53"] by (simp add: divide_strict_right_mono)
    then have "rat_of_int k < of_int (2 ^ 53)" using k i by simp
    then have "k < 2 ^ 53" by (simp only: of_int_less_iff)
    then have "k \<le> 2 ^ 53 - 1" by simp
    then have "rat_of_int k \<le> of_int (2 ^ 53 - 1)" by (simp only: of_int_le_iff)
    then have "r / pow2 (- 53) \<le> 1 / pow2 (- 53) - 1" using k i by simp
    then have "r / pow2 (- 53) * pow2 (- 53) \<le> (1 / pow2 (- 53) - 1) * pow2 (- 53)"
      using pow2_pos [of "- 53"] by (intro mult_right_mono) simp_all
    moreover have "r / pow2 (- 53) * pow2 (- 53) = r"
      using pow2_pos [of "- 53"] by simp
    moreover have "(1 / pow2 (- 53) - 1) * pow2 (- 53) = 1 - pow2 (- 53)"
      using pow2_pos [of "- 53"] by (simp add: left_diff_distrib)
    ultimately show ?thesis by simp
  next
    case n: False
    then have "ilog2 r + 1 \<le> - 1" using l by simp
    then have "pow2 (ilog2 r + 1) \<le> pow2 (- 1)" by (rule pow2_mono)
    then have a: "r < 1 / 2" using ilog2_bounds [OF p] by (simp add: pow2_m1)
    have "pow2 (- 53) \<le> pow2 (- 1)" by (rule pow2_mono) simp
    then show ?thesis using a by (simp add: pow2_m1)
  qed
qed

text \<open>The product of a number of \<open>[0, 1 - 2^-53]\<close> and \<open>n \<ge> 1\<close> rounds below \<open>n\<close>.\<close>

lemma round_product_less:
  assumes "0 \<le> r" and "r \<le> 1 - pow2 (- 53)" and "1 \<le> n"
  shows "round_double (r * n) < n"
proof (cases "r = 0")
  case True
  then show ?thesis using assms(3) by (simp add: round_double_0)
next
  case False
  define x where "x = r * n"
  have p: "0 < x" using False assms(1,3) by (simp add: x_def)
  have x: "x \<le> n - n * pow2 (- 53)"
  proof -
    have "r * n \<le> (1 - pow2 (- 53)) * n" using assms(2,3) by (intro mult_right_mono) simp_all
    then show ?thesis by (simp add: x_def algebra_simps)
  qed
  have h: "pow2 (- 52) / 2 = pow2 (- 53)" "pow2 (- 1074) / 2 = pow2 (- 1075)"
    using pow2_pred [of "- 52"] pow2_pred [of "- 1074"] by simp_all
  have q: "0 < pow2 (- 53)" by (rule pow2_pos)
  have "round_double x \<le> x + ulp x / 2" by (rule round_double_le)
  moreover have "x + ulp x / 2 < n"
  proof (cases "ulp x \<le> x * pow2 (- 52)")
    case True
    then have "x + ulp x / 2 \<le> x + x * pow2 (- 53)" using h(1) by simp
    also have "\<dots> = x * (1 + pow2 (- 53))" by (simp add: algebra_simps)
    also have "\<dots> \<le> (n - n * pow2 (- 53)) * (1 + pow2 (- 53))"
      using x q by (intro mult_right_mono) simp_all
    also have "\<dots> = n - n * (pow2 (- 53) * pow2 (- 53))" by (simp add: algebra_simps)
    also have "\<dots> < n" using assms(3) q by simp
    finally show ?thesis .
  next
    case n: False
    then have "ulp x \<le> pow2 (- 1074)" using ulp_le [OF p] by simp
    then have "x + ulp x / 2 \<le> x + pow2 (- 1075)" using h(2) by simp
    also have "\<dots> \<le> n - n * pow2 (- 53) + pow2 (- 1075)" using x by simp
    also have "\<dots> < n"
    proof -
      have "pow2 (- 1075) < pow2 (- 53)"
        by (simp add: pow2_powi power_int_strict_increasing)
      also have "\<dots> \<le> n * pow2 (- 53)" using assms(3) q by simp
      finally show ?thesis by simp
    qed
    finally show ?thesis .
  qed
  ultimately show ?thesis by (simp add: x_def)
qed

lemma random_index_le:
  assumes "is_double r" and "0 \<le> r" and "r < 1"
  shows "random_index r i \<le> i"
proof -
  have "round_double (r * (rat_of_nat i + 1)) < rat_of_nat i + 1"
    using assms by (intro round_product_less double_below_one) simp_all
  then have "round_double (r * (rat_of_nat i + 1)) < of_int (int i + 1)" by simp
  then have "\<lfloor>round_double (r * (rat_of_nat i + 1))\<rfloor> < int i + 1"
    by (simp only: floor_less_iff)
  then show ?thesis by (simp add: random_index_def)
qed

lemma pow2_nonneg_int: "0 \<le> e \<Longrightarrow> pow2 e = of_int (2 ^ nat e)"
  by (simp add: pow2_def)

lemma pow2_diff: "pow2 a / pow2 b = pow2 (a - b)"
proof -
  have "pow2 (a - b) * pow2 b = pow2 a" using pow2_add [of "a - b" b] by simp
  then show ?thesis using pow2_pos [of b] by (simp add: field_simps)
qed

lemma is_double_0: "is_double 0"
  by (simp add: is_double_def)

text \<open>The multiples of \<open>2^-53\<close> below 1 are doubles.\<close>

lemma grid_double:
  assumes "0 \<le> m" and "m < 2 ^ 53"
  shows "is_double (of_int m * pow2 (- 53))"
proof (cases "m = 0")
  case True
  then show ?thesis by (simp add: is_double_0)
next
  case False
  define r where "r = rat_of_int m * pow2 (- 53)"
  have p: "0 < r" using False assms(1) pow2_pos [of "- 53"] by (simp add: r_def)
  have "rat_of_int m < of_int (2 ^ 53)" using assms(2) by (simp only: of_int_less_iff)
  then have "rat_of_int m * pow2 (- 53) < of_int (2 ^ 53) * pow2 (- 53)"
    using pow2_pos [of "- 53"] by (intro mult_strict_right_mono)
  also have "of_int (2 ^ 53) * pow2 (- 53) = 1" by (simp add: pow2_def)
  finally have r1: "r < 1" by (simp add: r_def)
  then have "r < pow2 0" by (simp add: pow2_0)
  then have l: "ilog2 r < 0" by (rule ilog2_less [OF p])
  define E where "E = max (ilog2 r) (- 1022)"
  have E: "E \<le> - 1" using l by (simp add: E_def)
  have u: "ulp r = pow2 (E - 52)" using p by (simp add: ulp_def E_def)
  have "r / ulp r = r / pow2 (E - 52)" by (simp only: u)
  also have "\<dots> = rat_of_int m * (pow2 (- 53) / pow2 (E - 52))" by (simp add: r_def)
  also have "pow2 (- 53) / pow2 (E - 52) = pow2 (- 1 - E)" by (simp add: pow2_diff)
  also have "\<dots> = of_int (2 ^ nat (- 1 - E))" using E by (intro pow2_nonneg_int) simp
  finally have "r / ulp r = of_int (m * 2 ^ nat (- 1 - E))" by simp
  then have "of_int \<lfloor>r / ulp r\<rfloor> = r / ulp r" by (simp only: floor_of_int)
  moreover have "\<bar>r\<bar> < 2 ^ 1024"
  proof -
    have "(1::rat) \<le> 2 ^ 1024" by (rule one_le_power) simp
    then show ?thesis using p r1 by simp
  qed
  ultimately show ?thesis unfolding r_def [symmetric] by (simp add: is_double_def)
qed

text \<open>Below \<open>2^53\<close> rounding does not cross an integer downwards.\<close>

lemma inverse_ulp:
  assumes "0 \<le> x" and "x < pow2 53"
  shows "\<exists>c. 0 < c \<and> 1 / ulp x = of_int c"
proof -
  define E where "E = max (ilog2 \<bar>x\<bar>) (- 1022)"
  have "ilog2 x < 53"
  proof (cases "0 < x")
    case True
    then show ?thesis using assms(2) by (intro ilog2_less)
  next
    case False
    then show ?thesis by (simp add: ilog2_nonpos)
  qed
  then have E: "E \<le> 52" using assms(1) by (simp add: E_def)
  have "1 / ulp x = pow2 0 / pow2 (E - 52)" by (simp add: ulp_def E_def pow2_0)
  also have "\<dots> = pow2 (52 - E)" by (simp add: pow2_diff)
  also have "\<dots> = of_int (2 ^ nat (52 - E))" using E by (intro pow2_nonneg_int) simp
  finally have "1 / ulp x = of_int (2 ^ nat (52 - E))" .
  moreover have "(0::int) < 2 ^ nat (52 - E)" by simp
  ultimately show ?thesis by blast
qed

lemma round_double_ge_int:
  assumes "0 \<le> x" and "x < pow2 53" and "of_int k \<le> x"
  shows "of_int k \<le> round_double x"
proof -
  obtain c where c: "0 < c" "1 / ulp x = of_int c"
    using inverse_ulp [OF assms(1,2)] by blast
  have u: "ulp x * of_int c = 1" using c(2) ulp_pos [of x] by (simp add: field_simps)
  have "of_int k * (1 / ulp x) \<le> x * (1 / ulp x)"
    using assms(3) ulp_pos [of x] by (intro mult_right_mono) simp_all
  then have "of_int k * rat_of_int c \<le> x * (1 / ulp x)" by (simp only: c(2))
  then have "of_int (k * c) \<le> x / ulp x" by simp
  then have "k * c \<le> round_even (x / ulp x)" by (rule round_even_lower)
  then have "rat_of_int (k * c) \<le> of_int (round_even (x / ulp x))" by (simp only: of_int_le_iff)
  then have "rat_of_int (k * c) * ulp x \<le> of_int (round_even (x / ulp x)) * ulp x"
    using ulp_pos [of x] by (intro mult_right_mono) simp_all
  moreover have "rat_of_int (k * c) * ulp x = of_int k"
  proof -
    have "rat_of_int (k * c) * ulp x = of_int k * (ulp x * of_int c)" by simp
    then show ?thesis by (simp only: u mult_1_right)
  qed
  ultimately show ?thesis by (simp only: round_double_def)
qed

text \<open>Below \<open>2^32\<close> rounding moves a number by less than \<open>2^-21\<close>.\<close>

lemma round_double_near:
  assumes "0 \<le> x" and "x < 2 ^ 32"
  shows "round_double x \<le> x + 1 / 2 ^ 21"
proof (cases "x = 0")
  case True
  then show ?thesis by (simp add: round_double_0)
next
  case False
  then have p: "0 < x" using assms(1) by simp
  have a: "pow2 (- 52) = 1 / 2 ^ 52" by (simp add: pow2_def)
  have "x * pow2 (- 52) \<le> 2 ^ 32 * pow2 (- 52)"
    using assms(2) pow2_pos [of "- 52"] by (intro mult_right_mono) simp_all
  also have "\<dots> = 1 / 2 ^ 20" by (simp add: a)
  finally have b: "x * pow2 (- 52) \<le> 1 / 2 ^ 20" .
  have "pow2 (- 1074) \<le> pow2 (- 20)" by (rule pow2_mono) simp
  also have "\<dots> = 1 / 2 ^ 20" by (simp add: pow2_def)
  finally have c: "pow2 (- 1074) \<le> 1 / 2 ^ 20" .
  have "ulp x \<le> 1 / 2 ^ 20" using ulp_le [OF p] b c by simp
  then have "ulp x / 2 \<le> 1 / 2 ^ 21" by simp
  then show ?thesis using round_double_le [of x] by simp
qed

text \<open>
  Every index of \<open>0..i\<close> is chosen for some double of \<open>[0, 1)\<close>: the multiple
  of \<open>2^-53\<close> next above \<open>j / (i + 1)\<close>.
\<close>

lemma random_index_reach:
  assumes "j \<le> i" and "i < 2 ^ 32"
  shows "\<exists>r. is_double r \<and> 0 \<le> r \<and> r < 1 \<and> random_index r i = j"
proof -
  define n where "n = rat_of_nat i + 1"
  define m where "m = \<lceil>rat_of_nat j * 2 ^ 53 / n\<rceil>"
  define r where "r = rat_of_int m * pow2 (- 53)"
  define x where "x = r * n"
  have n1: "1 \<le> n" by (simp add: n_def)
  have n0: "0 < n" using n1 by simp
  have "Suc i \<le> 2 ^ 32" using assms(2) by simp
  then have "rat_of_nat (Suc i) \<le> rat_of_nat (2 ^ 32)" by (simp only: of_nat_le_iff)
  then have n32: "n \<le> 2 ^ 32" by (simp add: n_def)
  have jn: "rat_of_nat j \<le> n - 1" using assms(1) by (simp add: n_def)
  have p53: "pow2 (- 53) = 1 / 2 ^ 53" by (simp add: pow2_def)
  have "0 \<le> rat_of_nat j * 2 ^ 53 / n"
    using n0 by (intro divide_nonneg_pos mult_nonneg_nonneg) simp_all
  then have "- 1 < rat_of_nat j * 2 ^ 53 / n" by linarith
  then have m0: "0 \<le> m" by (simp add: m_def)
  have "rat_of_nat j * 2 ^ 53 / n \<le> (n - 1) * 2 ^ 53 / n"
    using jn n0 by (intro divide_right_mono mult_right_mono) simp_all
  also have "\<dots> = 2 ^ 53 - 2 ^ 53 / n" using n0 by (simp add: field_simps)
  also have "\<dots> \<le> 2 ^ 53 - 1"
  proof -
    have "n \<le> 2 ^ 53" using n32 by simp
    then have "1 \<le> 2 ^ 53 / n" using n0 by (simp add: field_simps)
    then show ?thesis by simp
  qed
  also have "\<dots> = of_int (2 ^ 53 - 1)" by simp
  finally have "m \<le> 2 ^ 53 - 1" unfolding m_def by (simp only: ceiling_le_iff)
  then have m53: "m < 2 ^ 53" by simp
  have d: "is_double r" unfolding r_def by (rule grid_double [OF m0 m53])
  have r0: "0 \<le> r" using m0 pow2_pos [of "- 53"] by (simp add: r_def)
  have "rat_of_int m < of_int (2 ^ 53)" using m53 by (simp only: of_int_less_iff)
  then have r1: "r < 1" by (simp add: r_def p53)
  have lo: "rat_of_nat j \<le> x"
  proof -
    have "rat_of_nat j * 2 ^ 53 / n \<le> of_int m" by (simp add: m_def)
    then have "rat_of_nat j * 2 ^ 53 / n * (n / 2 ^ 53) \<le> of_int m * (n / 2 ^ 53)"
      using n0 by (intro mult_right_mono) simp_all
    then show ?thesis using n0 by (simp add: x_def r_def p53)
  qed
  have hi: "x < rat_of_nat j + 1 / 2 ^ 21"
  proof -
    have "of_int m < rat_of_nat j * 2 ^ 53 / n + 1" unfolding m_def by linarith
    then have "of_int m * (n / 2 ^ 53) < (rat_of_nat j * 2 ^ 53 / n + 1) * (n / 2 ^ 53)"
      using n0 by (intro mult_strict_right_mono) simp_all
    also have "\<dots> = rat_of_nat j + n / 2 ^ 53" using n0 by (simp add: field_simps)
    also have "\<dots> \<le> rat_of_nat j + 2 ^ 32 / 2 ^ 53" using n32 by (simp add: divide_right_mono)
    also have "\<dots> = rat_of_nat j + 1 / 2 ^ 21" by simp
    finally show ?thesis by (simp add: x_def r_def p53)
  qed
  have j0: "0 \<le> rat_of_nat j" by simp
  have x0: "0 \<le> x" using lo j0 by linarith
  have x32: "x < 2 ^ 32" using hi jn n32 by simp
  have "pow2 53 = 2 ^ 53" by (simp add: pow2_def)
  then have x53: "x < pow2 53" using x32 by simp
  have "of_int (int j) \<le> x" using lo by simp
  then have a: "of_int (int j) \<le> round_double x"
    by (rule round_double_ge_int [OF x0 x53])
  have "round_double x \<le> x + 1 / 2 ^ 21" by (rule round_double_near [OF x0 x32])
  then have b: "round_double x < of_int (int j) + 1" using hi by simp
  have "\<lfloor>round_double x\<rfloor> = int j" using a b by (simp only: floor_unique)
  then have "random_index r i = j" by (simp add: random_index_def x_def n_def)
  then show ?thesis using d r0 r1 by blast
qed

subsection \<open>The shuffle\<close>

lemma random_index_range:
  "Math_random_range random \<Longrightarrow> random_index (random k) i \<le> i"
  by (rule random_index_le) (simp_all add: Math_random_range_def)

lemma mset_swap_list: "i < length xs \<Longrightarrow> j < length xs \<Longrightarrow> mset (swap i j xs) = mset xs"
  by (simp add: swap_def mset_swap)

lemma length_swap: "length (swap i j xs) = length xs"
  by (simp add: swap_def)

lemma shuffle_loop_mset:
  "Math_random_range random \<Longrightarrow> i < length xs \<Longrightarrow> mset (shuffle_loop random calls i xs) = mset xs"
proof (induction i arbitrary: calls xs)
  case 0
  show ?case by simp
next
  case (Suc i)
  let ?j = "random_index (random calls) (Suc i)"
  have "?j \<le> Suc i" by (rule random_index_range [OF Suc.prems(1)])
  then have j: "?j < length xs" using Suc.prems(2) by simp
  have "mset (shuffle_loop random (Suc calls) i (swap (Suc i) ?j xs)) = mset (swap (Suc i) ?j xs)"
    using Suc.prems by (intro Suc.IH) (simp_all add: length_swap)
  then show ?case using j Suc.prems(2) by (simp add: Let_def mset_swap_list)
qed

lemma shuffleArray_mset: "Math_random_range random \<Longrightarrow> mset (shuffleArray random xs) = mset xs"
proof (cases xs)
  case Nil
  then show ?thesis by (simp add: shuffleArray_def)
next
  case (Cons x ys)
  assume "Math_random_range random"
  then show ?thesis using Cons
    by (simp add: shuffleArray_def shuffle_loop_mset)
qed

lemma shuffleArray_length: "Math_random_range random \<Longrightarrow> length (shuffleArray random xs) = length xs"
  using shuffleArray_mset [of random xs] by (metis size_mset)

lemma shuffleArray_set: "Math_random_range random \<Longrightarrow> set (shuffleArray random xs) = set xs"
  using shuffleArray_mset [of random xs] by (metis set_mset_mset)

lemma shuffleArray_distinct:
  "Math_random_range random \<Longrightarrow> distinct xs \<Longrightarrow> distinct (shuffleArray random xs)"
  using shuffleArray_mset [of random xs] by (metis mset_eq_imp_distinct_iff)

lemma shuffle_loop_length: "length (shuffle_loop random calls i xs) = length xs"
  by (induction i arbitrary: calls xs) (simp_all add: Let_def length_swap)

lemma swap_nth_above: "i < p \<Longrightarrow> j \<le> i \<Longrightarrow> swap i j xs ! p = xs ! p"
  by (simp add: swap_def)

lemma swap_nth_left: "i < length xs \<Longrightarrow> j \<le> i \<Longrightarrow> swap i j xs ! i = xs ! j"
  by (cases "i = j") (simp_all add: swap_def)

text \<open>The loop from \<open>i\<close> leaves the positions above \<open>i\<close> alone.\<close>

lemma shuffle_loop_above:
  "Math_random_range random \<Longrightarrow> i < p \<Longrightarrow> shuffle_loop random calls i xs ! p = xs ! p"
proof (induction i arbitrary: calls xs)
  case 0
  show ?case by simp
next
  case (Suc i)
  let ?j = "random_index (random calls) (Suc i)"
  have j: "?j \<le> Suc i" by (rule random_index_range [OF Suc.prems(1)])
  have "shuffle_loop random (Suc calls) i (swap (Suc i) ?j xs) ! p = swap (Suc i) ?j xs ! p"
    using Suc.prems by (intro Suc.IH) simp_all
  then show ?case using j Suc.prems(2) by (simp add: Let_def swap_nth_above)
qed

lemma distinct_swap: "i < length xs \<Longrightarrow> j < length xs \<Longrightarrow> distinct xs \<Longrightarrow> distinct (swap i j xs)"
  using mset_swap_list [of i xs j] by (metis mset_eq_imp_distinct_iff)

text \<open>
  On an array without repetitions the result determines the index chosen at
  every step: two random sources that lead to the same arrangement made the
  same choices.
\<close>

lemma shuffle_loop_choices:
  assumes "Math_random_range r" and "Math_random_range r'"
  shows "distinct xs \<Longrightarrow> i < length xs
    \<Longrightarrow> shuffle_loop r c i xs = shuffle_loop r' c' i xs
    \<Longrightarrow> m < i
    \<Longrightarrow> random_index (r (c + m)) (i - m) = random_index (r' (c' + m)) (i - m)"
proof (induction i arbitrary: c c' xs m)
  case 0
  then show ?case by simp
next
  case (Suc i)
  define j where "j = random_index (r c) (Suc i)"
  define j' where "j' = random_index (r' c') (Suc i)"
  have j: "j \<le> Suc i" "j' \<le> Suc i"
    unfolding j_def j'_def
    by (rule random_index_range [OF assms(1)], rule random_index_range [OF assms(2)])
  have e: "shuffle_loop r (Suc c) i (swap (Suc i) j xs) = shuffle_loop r' (Suc c') i (swap (Suc i) j' xs)"
    using Suc.prems(3) unfolding j_def j'_def by (simp only: shuffle_loop.simps Let_def)
  have "shuffle_loop r (Suc c) i (swap (Suc i) j xs) ! Suc i = swap (Suc i) j xs ! Suc i"
    by (rule shuffle_loop_above [OF assms(1)]) simp
  then have a: "shuffle_loop r (Suc c) i (swap (Suc i) j xs) ! Suc i = xs ! j"
    using Suc.prems(2) j(1) by (simp only: swap_nth_left)
  have "shuffle_loop r' (Suc c') i (swap (Suc i) j' xs) ! Suc i = swap (Suc i) j' xs ! Suc i"
    by (rule shuffle_loop_above [OF assms(2)]) simp
  then have b: "shuffle_loop r' (Suc c') i (swap (Suc i) j' xs) ! Suc i = xs ! j'"
    using Suc.prems(2) j(2) by (simp only: swap_nth_left)
  have "xs ! j = xs ! j'" using a b e by simp
  then have jj: "j = j'"
    using Suc.prems(1,2) j by (simp add: nth_eq_iff_index_eq)
  show ?case
  proof (cases m)
    case 0
    then show ?thesis using jj unfolding j_def j'_def by simp
  next
    case (Suc m')
    have d: "distinct (swap (Suc i) j xs)"
      using Suc.prems(1,2) j(1) by (intro distinct_swap) simp_all
    have l: "i < length (swap (Suc i) j xs)"
      using Suc.prems(2) by (simp add: length_swap)
    have m: "m' < i" using Suc.prems(4) Suc by simp
    have "random_index (r (Suc c + m')) (i - m') = random_index (r' (Suc c' + m')) (i - m')"
      by (rule Suc.IH [OF d l e [unfolded jj [symmetric]] m])
    then show ?thesis using Suc by simp
  qed
qed

lemma shuffle_loop_cong:
  "\<forall>k \<ge> c. r k = r' k \<Longrightarrow> shuffle_loop r c i xs = shuffle_loop r' c i xs"
proof (induction i arbitrary: c xs)
  case 0
  show ?case by simp
next
  case (Suc i)
  have a: "r c = r' c" using Suc.prems by simp
  have b: "\<forall>k \<ge> Suc c. r k = r' k" using Suc.prems by simp
  show ?case
    by (simp only: shuffle_loop.simps Let_def a Suc.IH [OF b])
qed

lemma take_swap: "a < n \<Longrightarrow> b < n \<Longrightarrow> take n (swap a b xs) = swap a b (take n xs)"
  by (simp add: swap_def take_update_swap)

lemma drop_swap: "a < n \<Longrightarrow> b < n \<Longrightarrow> drop n (swap a b xs) = drop n xs"
  by (simp add: swap_def)

lemma zero_random_range: "Math_random_range (\<lambda>k. 0)"
  by (simp add: Math_random_range_def is_double_0)

text \<open>
  Every arrangement of the first \<open>i + 1\<close> elements is the result of the loop
  from \<open>i\<close> for some random source.
\<close>

lemma shuffle_loop_reach:
  "i < length xs \<Longrightarrow> length xs \<le> 2 ^ 32 \<Longrightarrow> length ys = length xs
   \<Longrightarrow> mset (take (Suc i) ys) = mset (take (Suc i) xs) \<Longrightarrow> drop (Suc i) ys = drop (Suc i) xs
   \<Longrightarrow> \<exists>r. Math_random_range r \<and> shuffle_loop r c i xs = ys"
proof (induction i arbitrary: xs c)
  case 0
  have "take 1 ys = take 1 xs"
    using "0.prems"(1,3,4) by (cases xs; cases ys) auto
  then have "ys = xs"
    using "0.prems"(5) by (metis One_nat_def append_take_drop_id)
  then show ?case using zero_random_range by (intro exI [of _ "\<lambda>k. 0"]) simp
next
  case (Suc i)
  let ?n = "Suc (Suc i)"
  have ly: "Suc i < length ys" using Suc.prems(1,3) by simp
  have ty: "take ?n ys = take (Suc i) ys @ [ys ! Suc i]"
    using ly by (rule take_Suc_conv_app_nth)
  have "ys ! Suc i \<in> set (take ?n ys)" using ty by simp
  then have "ys ! Suc i \<in> set (take ?n xs)"
    using Suc.prems(4) by (metis set_mset_mset)
  then obtain j where j: "j < ?n" "j < length xs" "xs ! j = ys ! Suc i"
    by (auto simp: in_set_conv_nth)
  define xs' where "xs' = swap (Suc i) j xs"
  have lx': "length xs' = length xs" by (simp add: xs'_def length_swap)
  have jle: "j \<le> Suc i" using j(1) by simp
  have nth': "xs' ! Suc i = ys ! Suc i"
    using swap_nth_left [OF Suc.prems(1) jle] j(3) by (simp add: xs'_def)
  have tx': "take ?n xs' = take (Suc i) xs' @ [xs' ! Suc i]"
    using Suc.prems(1) lx' by (intro take_Suc_conv_app_nth) simp
  have "mset (take ?n xs') = mset (swap (Suc i) j (take ?n xs))"
    using j(1) by (simp add: xs'_def take_swap)
  also have "\<dots> = mset (take ?n xs)"
    using Suc.prems(1) j(1,2) by (intro mset_swap_list) simp_all
  also have "\<dots> = mset (take ?n ys)" using Suc.prems(4) by simp
  finally have "mset (take (Suc i) xs' @ [xs' ! Suc i]) = mset (take (Suc i) ys @ [ys ! Suc i])"
    using tx' ty by simp
  then have m: "mset (take (Suc i) ys) = mset (take (Suc i) xs')"
    using nth' by simp
  have "drop (Suc i) ys = ys ! Suc i # drop ?n ys"
    using ly by (simp add: Cons_nth_drop_Suc)
  moreover have "drop (Suc i) xs' = xs' ! Suc i # drop ?n xs'"
    using Suc.prems(1) lx' by (simp add: Cons_nth_drop_Suc)
  moreover have "drop ?n xs' = drop ?n xs"
    using j(1) by (simp add: xs'_def drop_swap)
  ultimately have d: "drop (Suc i) ys = drop (Suc i) xs'"
    using nth' Suc.prems(5) by simp
  have "i < length xs'" using Suc.prems(1) lx' by simp
  moreover have "length xs' \<le> 2 ^ 32" using Suc.prems(2) lx' by simp
  moreover have "length ys = length xs'" using Suc.prems(3) lx' by simp
  ultimately obtain r' where r': "Math_random_range r'" "shuffle_loop r' (Suc c) i xs' = ys"
    using Suc.IH [of xs' "Suc c"] m d by blast
  have "Suc i < 2 ^ 32" using Suc.prems(1,2) by simp
  then obtain v where v: "is_double v" "0 \<le> v" "v < 1" "random_index v (Suc i) = j"
    using random_index_reach [OF jle] by blast
  define r where "r = (\<lambda>k. if k = c then v else r' k)"
  have u: "Math_random_range r"
    using r'(1) v(1,2,3) by (simp add: Math_random_range_def r_def)
  have rc: "random_index (r c) (Suc i) = j" using v(4) by (simp add: r_def)
  have "shuffle_loop r (Suc c) i xs' = shuffle_loop r' (Suc c) i xs'"
    by (rule shuffle_loop_cong) (simp add: r_def)
  then have "shuffle_loop r c (Suc i) xs = ys"
    using r'(2) rc by (simp only: shuffle_loop.simps Let_def xs'_def)
  then show ?case using u by blast
qed

lemma shuffleArray_reach:
  assumes "mset ys = mset xs" and "length xs \<le> 2 ^ 32"
  shows "\<exists>r. Math_random_range r \<and> shuffleArray r xs = ys"
proof (cases xs)
  case Nil
  then have "ys = []" using assms by simp
  then show ?thesis using Nil zero_random_range
    by (intro exI [of _ "\<lambda>k. 0"]) (simp add: shuffleArray_def)
next
  case (Cons x zs)
  have l: "length ys = length xs" using assms by (metis size_mset)
  have "\<exists>r. Math_random_range r \<and> shuffle_loop r 0 (length xs - 1) xs = ys"
    using Cons l assms by (intro shuffle_loop_reach) simp_all
  then show ?thesis by (simp add: shuffleArray_def)
qed

lemma shuffleArray_choices:
  assumes "Math_random_range r" and "Math_random_range r'" and "distinct xs"
    and "shuffleArray r xs = shuffleArray r' xs" and "Suc m < length xs"
  shows "random_index (r m) (length xs - 1 - m) = random_index (r' m) (length xs - 1 - m)"
  using shuffle_loop_choices [OF assms(1,2,3), of "length xs - 1" 0 0 m] assms(4,5)
  by (simp add: shuffleArray_def)

subsection \<open>How the index is distributed\<close>

lemma round_double_step:
  assumes "0 \<le> x" and "x < n" and "1 \<le> n"
  shows "round_double x < x + n * pow2 (- 53)"
proof (cases "x = 0")
  case True
  have "0 < n * pow2 (- 53)" using assms(3) pow2_pos [of "- 53"] by simp
  then show ?thesis using True by (simp add: round_double_0)
next
  case False
  then have p: "0 < x" using assms(1) by simp
  have q: "0 < pow2 (- 53)" by (rule pow2_pos)
  have h: "pow2 (- 52) / 2 = pow2 (- 53)" "pow2 (- 1074) / 2 = pow2 (- 1075)"
    using pow2_pred [of "- 52"] pow2_pred [of "- 1074"] by simp_all
  have a: "x * pow2 (- 53) < n * pow2 (- 53)"
    using assms(2) q by (intro mult_strict_right_mono)
  have "pow2 (- 1075) < pow2 (- 53)"
    by (simp add: pow2_powi power_int_strict_increasing)
  also have "\<dots> \<le> n * pow2 (- 53)" using assms(3) q by simp
  finally have b: "pow2 (- 1075) < n * pow2 (- 53)" .
  have "ulp x / 2 < n * pow2 (- 53)"
  proof (cases "ulp x \<le> x * pow2 (- 52)")
    case True
    then have "ulp x / 2 \<le> x * pow2 (- 53)" using h(1) by simp
    then show ?thesis using a by simp
  next
    case False
    then have "ulp x \<le> pow2 (- 1074)" using ulp_le [OF p] by simp
    then have "ulp x / 2 \<le> pow2 (- 1075)" using h(2) by simp
    then show ?thesis using b by simp
  qed
  then show ?thesis using round_double_le [of x] by simp
qed

text \<open>
  For the value \<open>m / 2^b\<close> the index lies between the exact quotients for
  \<open>m\<close> and for \<open>m + 1\<close>: rounding moves the product over at most one integer.
\<close>

lemma random_index_sandwich:
  assumes "b \<le> 53" and "m < 2 ^ b" and "i < 2 ^ 32"
  shows "m * Suc i div 2 ^ b \<le> random_index (rat_of_nat m / 2 ^ b) i"
    and "random_index (rat_of_nat m / 2 ^ b) i \<le> Suc m * Suc i div 2 ^ b"
proof -
  define n where "n = rat_of_nat (Suc i)"
  define N where "N = rat_of_nat (2 ^ b)"
  define x where "x = rat_of_nat (m * Suc i) / N"
  define x' where "x' = rat_of_nat (Suc m * Suc i) / N"
  have N0: "0 < N" by (simp add: N_def)
  have n1: "1 \<le> n" by (simp add: n_def)
  have xe: "x = rat_of_nat m / N * n"
    by (simp only: x_def n_def of_nat_mult times_divide_eq_left)
  have ni: "rat_of_nat i + 1 = n" by (simp add: n_def)
  have Nb: "2 ^ b = N" by (simp add: N_def)
  have e: "rat_of_nat m / 2 ^ b * (rat_of_nat i + 1) = x"
    by (simp only: xe ni Nb)
  have ri: "random_index (rat_of_nat m / 2 ^ b) i = nat \<lfloor>round_double x\<rfloor>"
    by (simp only: random_index_def e)
  have x0: "0 \<le> x" using N0 unfolding x_def by (intro divide_nonneg_pos) simp_all
  have "rat_of_nat m < N" unfolding N_def using assms(2) by (simp only: of_nat_less_iff)
  then have "rat_of_nat m / N * n < 1 * n"
    using N0 n1 by (intro mult_strict_right_mono) simp_all
  then have xn: "x < n" by (simp only: xe mult_1)
  have "Suc m * Suc i = m * Suc i + Suc i" by simp
  then have "rat_of_nat (Suc m * Suc i) = rat_of_nat (m * Suc i) + rat_of_nat (Suc i)"
    by (simp only: of_nat_add)
  then have xx: "x' = x + n / N"
    by (simp only: x'_def x_def n_def add_divide_distrib)
  have "Suc i \<le> 2 ^ 32" using assms(3) by simp
  then have "rat_of_nat (Suc i) \<le> rat_of_nat (2 ^ 32)" by (simp only: of_nat_le_iff)
  then have n32: "n \<le> 2 ^ 32" by (simp add: n_def)
  have "pow2 53 = 2 ^ 53" by (simp add: pow2_def)
  then have x53: "x < pow2 53" using xn n32 by simp
  have fx: "\<lfloor>x\<rfloor> = int (m * Suc i div 2 ^ b)"
    unfolding x_def N_def by (simp only: floor_divide_of_nat_eq)
  have fx': "\<lfloor>x'\<rfloor> = int (Suc m * Suc i div 2 ^ b)"
    unfolding x'_def N_def by (simp only: floor_divide_of_nat_eq)
  have "of_int \<lfloor>x\<rfloor> \<le> x" by simp
  then have "of_int \<lfloor>x\<rfloor> \<le> round_double x" by (rule round_double_ge_int [OF x0 x53])
  then have "\<lfloor>x\<rfloor> \<le> \<lfloor>round_double x\<rfloor>" by (simp only: le_floor_iff)
  then have "int (m * Suc i div 2 ^ b) \<le> \<lfloor>round_double x\<rfloor>" by (simp only: fx)
  then show "m * Suc i div 2 ^ b \<le> random_index (rat_of_nat m / 2 ^ b) i"
    unfolding ri by linarith
  have "(2::nat) ^ b \<le> 2 ^ 53" using assms(1) by (intro power_increasing) simp_all
  then have "rat_of_nat (2 ^ b) \<le> rat_of_nat (2 ^ 53)" by (simp only: of_nat_le_iff)
  then have N53: "N \<le> 2 ^ 53" by (simp add: N_def)
  have "pow2 (- 53) = 1 / 2 ^ 53" by (simp add: pow2_def)
  also have "\<dots> \<le> 1 / N" using N53 N0 by (intro divide_left_mono) simp_all
  finally have "n * pow2 (- 53) \<le> n * (1 / N)" using n1 by (intro mult_left_mono) simp_all
  then have "x + n * pow2 (- 53) \<le> x + n / N" by simp
  also have "\<dots> = x'" by (simp only: xx)
  finally have "round_double x < x'" using round_double_step [OF x0 xn n1] by simp
  then have "\<lfloor>round_double x\<rfloor> \<le> \<lfloor>x'\<rfloor>" by (intro floor_mono) simp
  then have "\<lfloor>round_double x\<rfloor> \<le> int (Suc m * Suc i div 2 ^ b)" by (simp only: fx')
  then show "random_index (rat_of_nat m / 2 ^ b) i \<le> Suc m * Suc i div 2 ^ b"
    unfolding ri by linarith
qed

lemma random_values_inj: "inj_on (\<lambda>m. rat_of_nat m / 2 ^ b) A"
  by (simp add: inj_on_def)

lemma random_values_card: "card (random_values b) = 2 ^ b"
  by (simp add: random_values_def card_image random_values_inj)

lemma index_count_nat:
  "index_count b i j = card {m. m < 2 ^ b \<and> random_index (rat_of_nat m / 2 ^ b) i = j}"
proof -
  have "{r \<in> random_values b. random_index r i = j}
          = (\<lambda>m. rat_of_nat m / 2 ^ b) ` {m. m < 2 ^ b \<and> random_index (rat_of_nat m / 2 ^ b) i = j}"
    by (auto simp: random_values_def)
  then show ?thesis by (simp add: index_count_def card_image random_values_inj)
qed

lemma power_two_mod_three: "(2::nat) ^ b mod 3 = 1 \<or> (2::nat) ^ b mod 3 = 2"
proof (induction b)
  case 0
  show ?case by simp
next
  case (Suc b)
  have "(2::nat) ^ Suc b mod 3 = 2 * (2 ^ b mod 3) mod 3"
    by (simp add: mod_mult_right_eq)
  then show ?case using Suc by auto
qed

text \<open>
  No number of equally likely values that is a power of two is divided evenly
  among three indices.
\<close>

lemma not_uniformly_chosen: "\<not> uniformly_chosen b 2"
proof
  assume "uniformly_chosen b 2"
  then have "index_count b 2 0 * 3 = 2 ^ b" by (simp add: uniformly_chosen_def)
  then have "(2::nat) ^ b mod 3 = 0" by (metis mod_mult_self2_is_0)
  then show False using power_two_mod_three [of b] by simp
qed

lemma index_count_upper:
  assumes "b \<le> 53" and "i < 2 ^ 32"
  shows "index_count b i j \<le> 2 ^ b div Suc i + 2"
proof -
  define N :: nat where "N = 2 ^ b"
  define n where "n = Suc i"
  define f where "f m = random_index (rat_of_nat m / 2 ^ b) i" for m
  define M where "M = {m. m < N \<and> f m = j}"
  have N0: "0 < N" by (simp add: N_def)
  have n0: "0 < n" by (simp add: n_def)
  have fin: "finite M" by (simp add: M_def)
  have close: "m' \<le> m + (N div n + 1)" if "m \<in> M" and "m' \<in> M" for m m'
  proof (rule ccontr)
    assume "\<not> m' \<le> m + (N div n + 1)"
    then have "Suc m + (N div n + 1) \<le> m'" by simp
    then have "(Suc m + (N div n + 1)) * n \<le> m' * n" by (rule mult_le_mono1)
    then have g: "Suc m * n + (N div n + 1) * n \<le> m' * n" by (simp only: add_mult_distrib)
    have "N < n + N div n * n" using n0 by (rule dividend_less_div_times)
    then have h: "N < (N div n + 1) * n" by simp
    have "m < N" "f m = j" using that(1) by (simp_all add: M_def)
    then have "j \<le> Suc m * n div N"
      using random_index_sandwich(2) [OF assms(1) _ assms(2), of m] by (simp add: f_def N_def n_def)
    then have a: "j * N \<le> Suc m * n" using N0 by (simp only: less_eq_div_iff_mult_less_eq)
    have "m' < N" "f m' = j" using that(2) by (simp_all add: M_def)
    then have "m' * n div N \<le> j"
      using random_index_sandwich(1) [OF assms(1) _ assms(2), of m'] by (simp add: f_def N_def n_def)
    then have "m' * n div N < Suc j" by simp
    then have "m' * n < Suc j * N" using N0 by (simp only: div_less_iff_less_mult)
    then have "m' * n < j * N + N" by simp
    then show False using a g h by linarith
  qed
  have "card M \<le> N div n + 2"
  proof (cases "M = {}")
    case True
    then show ?thesis by simp
  next
    case False
    define m0 where "m0 = Min M"
    have m0: "m0 \<in> M" unfolding m0_def using fin False by (rule Min_in)
    have "M \<subseteq> {m0..m0 + (N div n + 1)}"
    proof
      fix m assume m: "m \<in> M"
      have "m0 \<le> m" unfolding m0_def using fin m by (rule Min_le)
      then show "m \<in> {m0..m0 + (N div n + 1)}" using close [OF m0 m] by simp
    qed
    then have "card M \<le> card {m0..m0 + (N div n + 1)}" by (intro card_mono) simp_all
    then show ?thesis by simp
  qed
  then show ?thesis by (simp add: index_count_nat M_def f_def N_def n_def)
qed

lemma index_count_lower:
  assumes "b \<le> 53" and "i < 2 ^ 32" and "j \<le> i"
  shows "2 ^ b div Suc i - 1 \<le> index_count b i j"
proof -
  define N :: nat where "N = 2 ^ b"
  define n where "n = Suc i"
  define f where "f m = random_index (rat_of_nat m / 2 ^ b) i" for m
  define M where "M = {m. m < N \<and> f m = j}"
  define a where "a = (j * N + n - 1) div n"
  define d where "d = N div n - 1"
  have N0: "0 < N" by (simp add: N_def)
  have n0: "0 < n" by (simp add: n_def)
  have fin: "finite M" by (simp add: M_def)
  have a1: "a * n \<le> j * N + n - 1" unfolding a_def by (rule div_times_less_eq_dividend)
  have "j * N + n - 1 < n + a * n" unfolding a_def using n0 by (rule dividend_less_div_times)
  then have a2: "j * N \<le> a * n" using n0 by simp
  have sub: "{a..<a + d} \<subseteq> M"
  proof
    fix m assume "m \<in> {a..<a + d}"
    then have m: "a \<le> m" "Suc m \<le> a + d" by simp_all
    then have d1: "1 \<le> d" by simp
    then have q: "2 \<le> N div n" by (simp add: d_def)
    have "N div n * n \<le> N" by (rule div_times_less_eq_dividend)
    moreover have "d * n + n = N div n * n"
      using q by (simp add: d_def diff_mult_distrib)
    ultimately have dn: "d * n + n \<le> N" by simp
    have "a * n \<le> m * n" using m(1) by (rule mult_le_mono1)
    then have "j * N \<le> m * n" using a2 by (rule le_trans [rotated])
    then have lo: "j \<le> m * n div N" using N0 by (simp only: less_eq_div_iff_mult_less_eq)
    have "Suc m * n \<le> (a + d) * n" using m(2) by (rule mult_le_mono1)
    then have "Suc m * n \<le> a * n + d * n" by (simp only: add_mult_distrib)
    then have "Suc m * n < j * N + N" using a1 dn n0 by linarith
    then have s: "Suc m * n < Suc j * N" by simp
    then have "Suc m * n div N < Suc j" using N0 by (simp only: div_less_iff_less_mult)
    then have hi: "Suc m * n div N \<le> j" by simp
    have "Suc j \<le> n" using assms(3) by (simp add: n_def)
    then have "Suc j * N \<le> n * N" by (rule mult_le_mono1)
    then have "Suc m * n < N * n" using s by (simp add: mult.commute)
    then have "Suc m < N" by (simp only: mult_less_cancel2)
    then have mN: "m < N" by simp
    have "m * n div N \<le> f m" "f m \<le> Suc m * n div N"
      using random_index_sandwich [OF assms(1) _ assms(2), of m] mN
      by (simp_all add: f_def N_def n_def)
    then have "f m = j" using lo hi by linarith
    then show "m \<in> M" using mN by (simp add: M_def)
  qed
  have "card {a..<a + d} \<le> card M" using sub fin by (rule card_mono [rotated])
  then have "d \<le> card M" by simp
  then show ?thesis by (simp add: index_count_nat M_def f_def N_def n_def d_def)
qed

subsection \<open>Exercise suggestions\<close>

lemma demo_catalog_pool: "catalog_pool demo_strip (Response 200 (Inr demo_catalog)) = Inr demo_pool"
  by code_simp

lemma demo_pool_distinct: "distinct demo_pool"
  by code_simp

lemma demo_random_range: "Math_random_range demo_random"
  by (simp add: Math_random_range_def demo_random_def double_eval)

text \<open>
  The indices chosen for the double nearest to one third.  At the positions 2
  and 5 the exact product lies below an integer that the rounded product
  reaches, so that the index is the one above the floor of the exact product.
\<close>

lemma demo_products:
  "\<lfloor>demo_random k * 3\<rfloor> = 0" "round_double (demo_random k * 3) = 1"
  "\<lfloor>demo_random k * 6\<rfloor> = 1" "round_double (demo_random k * 6) = 2"
  by (simp_all add: demo_random_def double_eval)

lemma demo_indices_numeral:
  "random_index (demo_random k) 1 = 0"
  "random_index (demo_random k) 2 = 1"
  "random_index (demo_random k) 3 = 1"
  "random_index (demo_random k) 4 = 1"
  "random_index (demo_random k) 5 = 2"
  by (simp_all add: demo_random_def double_eval)

lemma demo_indices:
  "random_index (demo_random k) (Suc 0) = 0"
  "random_index (demo_random k) (Suc (Suc 0)) = Suc 0"
  "random_index (demo_random k) (Suc (Suc (Suc 0))) = Suc 0"
  "random_index (demo_random k) (Suc (Suc (Suc (Suc 0)))) = Suc 0"
  "random_index (demo_random k) (Suc (Suc (Suc (Suc (Suc 0))))) = Suc (Suc 0)"
  using demo_indices_numeral [of k] by (simp_all add: eval_nat_numeral)

text \<open>
  Two products that round up to an integer: the index is 4 where the exact
  product is below 4, and 5 where it is below 5.
\<close>

lemma random_index_rounded:
  "random_index (5146971002709138 / 2 ^ 53) 6 = 4"
  "\<lfloor>(5146971002709138 / 2 ^ 53 :: rat) * 7\<rfloor> = 3"
  "random_index (7505999378950826 / 2 ^ 53) 5 = 5"
  "\<lfloor>(7505999378950826 / 2 ^ 53 :: rat) * 6\<rfloor> = 4"
  by (simp_all add: double_eval)

lemma demo_shuffle: "take 5 (shuffleArray demo_random demo_pool)
   = [suggested ''Pull-up'' ''Back'' ''Raise the chin over the bar.'',
      suggested ''Squat'' ''Legs'' ''Bend the knees.'',
      suggested ''Lunge'' ''Legs'' ''Step forward and bend.'',
      suggested ''Crunch'' ''Abs'' ''Curl the trunk.'',
      suggested ''Push-up'' ''Chest'' ''Lower and raise the body.'']"
  by (simp add: shuffleArray_def demo_pool_def demo_indices swap_def)

lemma weight_loss_length: "length weight_loss_table = 5"
  by (simp add: weight_loss_table_def)

lemma weight_loss_shuffle:
  "shuffleArray demo_random weight_loss_table
     = [exercise ''Mountain Climbers'' ''Core and cardio exercise in plank position with alternating knee drives.'',
        exercise ''Jumping Jacks'' ''Full body cardio exercise. Jump while spreading legs and raising arms overhead.'',
        exercise ''High Knees'' ''Running in place while lifting knees to hip level.'',
        exercise ''Jump Rope'' ''Classic cardio exercise for endurance and coordination.'',
        exercise ''Burpees'' ''High-intensity exercise combining squat, plank, and jump.'']"
  by (simp add: shuffleArray_def weight_loss_table_def demo_indices swap_def)

text \<open>
  Whenever the catalog does not yield a pool (the \<open>try\<close> block throws),
  \<open>fetchSuggestedExercises\<close> for the goal Weight Loss and limit 5 returns a
  result: \<open>success\<close> is false, the error string is the user-facing message,
  and the exercises are the five entries of the Weight Loss table in the order
  the shuffle gives them.  A rejected fetch, a status outside 200 to 299 and
  an empty normalized pool are such failures.
\<close>

lemma fallback_weight_loss:
  assumes "Math_random_range random" and "catalog_pool stripHtml net = Inl caught"
  shows "fetchSuggestedExercises stripHtml random net (Some ''Weight Loss'') 5
           = Inr \<lparr> success = False,
                   exercises = shuffleArray random weight_loss_table,
                   error = Some ''Unable to load suggested exercises right now.'' \<rparr>
       \<and> length (shuffleArray random weight_loss_table) = 5
       \<and> mset (shuffleArray random weight_loss_table) = mset weight_loss_table
       \<and> set (shuffleArray random weight_loss_table) = set weight_loss_table
       \<and> catalog_pool stripHtml NetworkError = Inl FetchRejected
       \<and> (\<not> response_ok status \<longrightarrow> catalog_pool stripHtml (Response status body) = Inl (HttpError status))
       \<and> (response_ok status \<and> get_prop data ''results'' = Inr (Some (JArr rs))
            \<and> collect_exercises stripHtml rs [] = Inr []
           \<longrightarrow> catalog_pool stripHtml (Response status (Inr data)) = Inl NoExercises)"
proof -
  have l: "length (shuffleArray random weight_loss_table) = 5"
    using shuffleArray_length [OF assms(1), of weight_loss_table] by (simp add: weight_loss_length)
  have a: "fetchSuggestedExercises stripHtml random net (Some ''Weight Loss'') 5
           = Inr \<lparr> success = False,
                   exercises = shuffleArray random weight_loss_table,
                   error = Some ''Unable to load suggested exercises right now.'' \<rparr>"
    using assms(2) l by (simp add: fetchSuggestedExercises_def getFallbackExercises_def)
  have b: "mset (shuffleArray random weight_loss_table) = mset weight_loss_table"
    by (rule shuffleArray_mset [OF assms(1)])
  have c: "set (shuffleArray random weight_loss_table) = set weight_loss_table"
    by (rule shuffleArray_set [OF assms(1)])
  have d: "catalog_pool stripHtml NetworkError = Inl FetchRejected"
    by (simp add: catalog_pool_def)
  have e: "\<not> response_ok status \<longrightarrow> catalog_pool stripHtml (Response status body) = Inl (HttpError status)"
    by (simp add: catalog_pool_def)
  have f: "response_ok status \<and> get_prop data ''results'' = Inr (Some (JArr rs))
            \<and> collect_exercises stripHtml rs [] = Inr []
           \<longrightarrow> catalog_pool stripHtml (Response status (Inr data)) = Inl NoExercises"
    by (simp add: catalog_pool_def)
  show ?thesis
    by (intro conjI) (rule a l b c d e f)+
qed

lemma demo_fallback:
  "fetchSuggestedExercises demo_strip demo_random (Response 503 (Inl SyntaxError))
        (Some ''Weight Loss'') 5
       = Inr \<lparr> success = False,
               exercises = [exercise ''Mountain Climbers'' ''Core and cardio exercise in plank position with alternating knee drives.'',
                            exercise ''Jumping Jacks'' ''Full body cardio exercise. Jump while spreading legs and raising arms overhead.'',
                            exercise ''High Knees'' ''Running in place while lifting knees to hip level.'',
                            exercise ''Jump Rope'' ''Classic cardio exercise for endurance and coordination.'',
                            exercise ''Burpees'' ''High-intensity exercise combining squat, plank, and jump.''],
               error = Some ''Unable to load suggested exercises right now.'' \<rparr>"
proof -
  have c: "catalog_pool demo_strip (Response 503 (Inl SyntaxError)) = Inl (HttpError 503)"
    by (simp add: catalog_pool_def response_ok_def)
  show ?thesis
    using fallback_weight_loss [OF demo_random_range c, THEN conjunct1, unfolded weight_loss_shuffle] .
qed

text \<open>
  A goal that is no key of the table and no member of \<open>Object.prototype\<close>
  gets the General Fitness table.
\<close>

lemma fallback_default_table:
  assumes "catalog_pool stripHtml net = Inl caught"
    and "g \<notin> {''Weight Loss'', ''Muscle Gain'', ''General Fitness''}"
    and "g \<notin> set object_prototype_names"
  shows "fetchSuggestedExercises stripHtml random net (Some g) limit
           = Inr \<lparr> success = False,
                   exercises = take limit (shuffleArray random general_fitness_table),
                   error = Some ''Unable to load suggested exercises right now.'' \<rparr>"
  using assms by (simp add: fetchSuggestedExercises_def getFallbackExercises_def)

text \<open>
  C3.  The claim says that after a failed fetch a result is always returned,
  from the default table when the goal is unrecognized.  For the goal
  \<open>constructor\<close>, which is no key of the fallback table, \<open>exercises[goal]\<close> is
  the member \<open>constructor\<close> of \<open>Object.prototype\<close>: \<open>getFallbackExercises\<close>
  returns it in place of the General Fitness table, \<open>shuffleArray\<close> cannot
  spread it, and, the call standing in the \<open>catch\<close> block, the promise of
  \<open>fetchSuggestedExercises\<close> rejects with \<open>TypeError\<close>, whether the fetch was
  rejected, answered with a status that is not ok, or gave no exercise.
\<close>

theorem fallback_prototype_goal:
  "getFallbackExercises (Some ''constructor'') = None
   \<and> fetchSuggestedExercises stripHtml random NetworkError (Some ''constructor'') 5 = Inl TypeError
   \<and> fetchSuggestedExercises stripHtml random (Response 503 body) (Some ''constructor'') 5 = Inl TypeError
   \<and> fetchSuggestedExercises stripHtml random (Response 200 (Inr (JObj [(''results'', JArr [])])))
        (Some ''constructor'') 5 = Inl TypeError"
proof -
  have g: "getFallbackExercises (Some ''constructor'') = None"
    by (simp add: getFallbackExercises_def object_prototype_names_def)
  have a: "catalog_pool stripHtml NetworkError = Inl FetchRejected"
    by (simp add: catalog_pool_def)
  have b: "catalog_pool stripHtml (Response 503 body) = Inl (HttpError 503)"
    by (simp add: catalog_pool_def response_ok_def)
  have c: "catalog_pool stripHtml (Response 200 (Inr (JObj [(''results'', JArr [])]))) = Inl NoExercises"
    by (simp add: catalog_pool_def response_ok_def get_prop_def)
  show ?thesis
    by (simp add: fetchSuggestedExercises_def g a b c)
qed

text \<open>
  C4 (as amended).  When the catalog yields a normalized pool of at least
  five distinct records, \<open>fetchSuggestedExercises\<close> with limit 5 returns
  \<open>success\<close> true and the first five elements of the shuffled pool: five
  distinct entries, all from the pool.  The shuffle is the Fisher-Yates loop:
  it permutes the pool, and at position \<open>i\<close> it swaps with the index
  \<open>Math.floor(Math.random() * (i + 1))\<close>, which lies in \<open>0..i\<close>.  For a pool of
  at most \<open>2^32\<close> records, the bound on the length of an array, every
  arrangement of the pool is the result for some values of \<open>Math.random()\<close>;
  on a pool without repetitions the arrangement determines the index chosen
  at every position.  The index is chosen evenly up to rounding: of the
  \<open>2^bits\<close> equally likely values of an engine each index of \<open>0..i\<close> gets the
  share \<open>2^bits div (i + 1)\<close>, one value less or two more at most.
\<close>

theorem fetch_success_sample:
  assumes u: "Math_random_range random" and p: "catalog_pool stripHtml net = Inr pool"
    and n: "5 \<le> length pool" and d: "distinct pool"
  shows "fetchSuggestedExercises stripHtml random net goal 5
           = Inr \<lparr> success = True, exercises = take 5 (shuffleArray random pool), error = None \<rparr>
       \<and> length (take 5 (shuffleArray random pool)) = 5
       \<and> distinct (take 5 (shuffleArray random pool))
       \<and> set (take 5 (shuffleArray random pool)) \<subseteq> set pool
       \<and> mset (shuffleArray random pool) = mset pool
       \<and> (\<forall>k. Suc k < length pool \<longrightarrow>
              random_index (random k) (length pool - 1 - k) \<le> length pool - 1 - k)
       \<and> (length pool \<le> 2 ^ 32 \<longrightarrow>
            (\<forall>ys. mset ys = mset pool \<longrightarrow> (\<exists>r. Math_random_range r \<and> shuffleArray r pool = ys)))
       \<and> (\<forall>r k. Math_random_range r \<and> shuffleArray r pool = shuffleArray random pool
                  \<and> Suc k < length pool \<longrightarrow>
              random_index (r k) (length pool - 1 - k)
                = random_index (random k) (length pool - 1 - k))
       \<and> (\<forall>bits i j. bits \<le> 53 \<and> i < length pool \<and> length pool \<le> 2 ^ 32 \<and> j \<le> i \<longrightarrow>
              2 ^ bits div (i + 1) - 1 \<le> index_count bits i j
              \<and> index_count bits i j \<le> 2 ^ bits div (i + 1) + 2)"
proof -
  have a: "fetchSuggestedExercises stripHtml random net goal 5
           = Inr \<lparr> success = True, exercises = take 5 (shuffleArray random pool), error = None \<rparr>"
    using p by (simp add: fetchSuggestedExercises_def)
  have b: "length (take 5 (shuffleArray random pool)) = 5"
    using n by (simp add: shuffleArray_length [OF u])
  have c: "distinct (take 5 (shuffleArray random pool))"
    by (rule distinct_take [OF shuffleArray_distinct [OF u d]])
  have "set (take 5 (shuffleArray random pool)) \<subseteq> set (shuffleArray random pool)"
    by (rule set_take_subset)
  then have e: "set (take 5 (shuffleArray random pool)) \<subseteq> set pool"
    by (simp only: shuffleArray_set [OF u])
  have f: "mset (shuffleArray random pool) = mset pool"
    by (rule shuffleArray_mset [OF u])
  have g: "\<forall>k. Suc k < length pool \<longrightarrow>
              random_index (random k) (length pool - 1 - k) \<le> length pool - 1 - k"
    using random_index_range [OF u] by simp
  have h: "length pool \<le> 2 ^ 32 \<longrightarrow>
            (\<forall>ys. mset ys = mset pool \<longrightarrow> (\<exists>r. Math_random_range r \<and> shuffleArray r pool = ys))"
    by (auto intro: shuffleArray_reach)
  have i: "\<forall>r k. Math_random_range r \<and> shuffleArray r pool = shuffleArray random pool
                  \<and> Suc k < length pool \<longrightarrow>
              random_index (r k) (length pool - 1 - k)
                = random_index (random k) (length pool - 1 - k)"
    using shuffleArray_choices [OF _ u d] by blast
  have j: "\<forall>bits i j. bits \<le> 53 \<and> i < length pool \<and> length pool \<le> 2 ^ 32 \<and> j \<le> i \<longrightarrow>
              2 ^ bits div (i + 1) - 1 \<le> index_count bits i j
              \<and> index_count bits i j \<le> 2 ^ bits div (i + 1) + 2"
  proof (intro allI impI)
    fix bits i j :: nat
    assume q: "bits \<le> 53 \<and> i < length pool \<and> length pool \<le> 2 ^ 32 \<and> j \<le> i"
    then have l: "i < 2 ^ 32" by simp
    show "2 ^ bits div (i + 1) - 1 \<le> index_count bits i j
              \<and> index_count bits i j \<le> 2 ^ bits div (i + 1) + 2"
      using index_count_lower [of bits i j] index_count_upper [of bits i j] q l by simp
  qed
  show ?thesis
    by (intro conjI) (rule a b c e f g h i j)+
qed

theorem fetch_success_sample_witness:
  "Math_random_range demo_random
   \<and> catalog_pool demo_strip (Response 200 (Inr demo_catalog)) = Inr demo_pool
   \<and> 5 \<le> length demo_pool \<and> distinct demo_pool
   \<and> fetchSuggestedExercises demo_strip demo_random (Response 200 (Inr demo_catalog))
        (Some ''Muscle Gain'') 5
       = Inr \<lparr> success = True,
               exercises = [suggested ''Pull-up'' ''Back'' ''Raise the chin over the bar.'',
                            suggested ''Squat'' ''Legs'' ''Bend the knees.'',
                            suggested ''Lunge'' ''Legs'' ''Step forward and bend.'',
                            suggested ''Crunch'' ''Abs'' ''Curl the trunk.'',
                            suggested ''Push-up'' ''Chest'' ''Lower and raise the body.''],
               error = None \<rparr>
   \<and> 3002399751580329 \<le> index_count 53 2 0
   \<and> index_count 53 2 0 \<le> 3002399751580332"
proof -
  have n: "5 \<le> length demo_pool" by (simp add: demo_pool_def)
  have l: "length demo_pool = 6" by (simp add: demo_pool_def)
  note t = fetch_success_sample [OF demo_random_range demo_catalog_pool n demo_pool_distinct]
  have r: "fetchSuggestedExercises demo_strip demo_random (Response 200 (Inr demo_catalog))
        (Some ''Muscle Gain'') 5
       = Inr \<lparr> success = True,
               exercises = [suggested ''Pull-up'' ''Back'' ''Raise the chin over the bar.'',
                            suggested ''Squat'' ''Legs'' ''Bend the knees.'',
                            suggested ''Lunge'' ''Legs'' ''Step forward and bend.'',
                            suggested ''Crunch'' ''Abs'' ''Curl the trunk.'',
                            suggested ''Push-up'' ''Chest'' ''Lower and raise the body.''],
               error = None \<rparr>"
    using t [THEN conjunct1, unfolded demo_shuffle] .
  note s = t [THEN conjunct2, THEN conjunct2, THEN conjunct2, THEN conjunct2, THEN conjunct2,
    THEN conjunct2, THEN conjunct2, THEN conjunct2, rule_format, of 53 2 0]
  have c: "3002399751580329 \<le> index_count 53 2 0" "index_count 53 2 0 \<le> 3002399751580332"
    using s by (simp_all add: l)
  show ?thesis
    by (intro conjI) (rule demo_random_range demo_catalog_pool n demo_pool_distinct r c)+
qed

text \<open>
  The claim as the specification words it, with an index that is uniformly
  chosen, fails at the position 2, which every pool of three records or more
  reaches: no engine that returns \<open>2^bits\<close> equally likely values, 53 bits or
  52, gives each of the three indices the share one third, since three does
  not divide a power of two.
\<close>

theorem uniform_choice_counterexample:
  "\<not> uniformly_chosen 53 2 \<and> \<not> uniformly_chosen 52 2"
  by (intro conjI) (rule not_uniformly_chosen)+

end
